theory Spec2Isabelle
  imports Complex_Main
begin

section \<open>The download engine of kumo-comic\<close>

text \<open>
  A shallow embedding of \<^verbatim>\<open>src/kumo/engine/downloader.py\<close> (class
  \<^verbatim>\<open>ImageDownloader\<close>), \<^verbatim>\<open>src/kumo/exceptions.py\<close>
  (\<^verbatim>\<open>TaskDownloadError\<close>), \<^verbatim>\<open>src/kumo/core/models.py\<close>
  (\<^verbatim>\<open>DownloadTask\<close>) and \<^verbatim>\<open>src/kumo/utils/helpers.py\<close>
  (\<^verbatim>\<open>random_delay\<close>).

  Exceptions are values: a call that can raise returns \<open>exn + 'a\<close>, with \<open>Inl\<close> the
  exception. Everything the engine does to the outside world (the semaphore, the file
  system, sleeping, the HTTP session, the task's hooks) is written to a chronological
  list of events, and everything the outside world answers is read from a script.
\<close>

subsection \<open>Exceptions\<close>

text \<open>
  The exception values the engine can meet. The first six are subclasses of Python's
  \<^verbatim>\<open>Exception\<close>. The last three derive from \<^verbatim>\<open>BaseException\<close> only:
  \<^verbatim>\<open>asyncio.CancelledError\<close>, \<^verbatim>\<open>KeyboardInterrupt\<close> and
  \<^verbatim>\<open>SystemExit\<close>. The handler \<^verbatim>\<open>except Exception as e\<close> of
  \<^verbatim>\<open>download_task\<close> catches the former and lets the latter through.
\<close>

datatype exn =
    Exception string
  | ClientError string
  | TimeoutError
  | OSError string
  | ValueError string
  | AttributeError
  | CancelledError
  | KeyboardInterrupt
  | SystemExit

text \<open>\<^verbatim>\<open>isinstance(e, Exception)\<close>.\<close>

fun is_Exception :: "exn \<Rightarrow> bool" where
  "is_Exception CancelledError = False"
| "is_Exception KeyboardInterrupt = False"
| "is_Exception SystemExit = False"
| "is_Exception e = True"

text \<open>
  \<^verbatim>\<open>TaskDownloadError(url, errors)\<close>: the attributes its constructor sets. The
  formatted message is left out.
\<close>

record task_download_error =
  err_url :: string
  original_errors :: "exn list"
  last_error :: "exn option"
  attempts :: int

definition TaskDownloadError :: "string \<Rightarrow> exn list \<Rightarrow> task_download_error" where
  "TaskDownloadError u errs =
     \<lparr> err_url = u,
       original_errors = errs,
       last_error = (if errs \<noteq> [] then Some (last errs) else None),
       attempts = int (length errs) \<rparr>"

subsection \<open>Tasks and the engine object\<close>

text \<open>
  \<^verbatim>\<open>DownloadTask\<close>. The two hooks are methods a subclass overrides, plain or
  asynchronous; the engine calls them through \<^verbatim>\<open>maybe_coroutine\<close>, which calls
  the method and awaits its result when that is awaitable, so that an exception of the
  hook reaches the engine at the place of the call either way. A hook is modelled by
  whether its call returns (\<open>None\<close>) or raises (\<open>Some e\<close>). \<open>on_success\<close> can
  be called in several attempts, so its behaviour is given per attempt index;
  \<open>on_error\<close> receives the error object. The field \<^verbatim>\<open>extras\<close> is not read by
  the engine and is left out.
\<close>

record DownloadTask =
  url :: string
  save_path :: string
  headers :: "string \<rightharpoonup> string"
  cookies :: "string \<rightharpoonup> string"
  referer :: string
  on_success :: "nat \<Rightarrow> exn option"
  on_error :: "task_download_error \<Rightarrow> exn option"

text \<open>
  The attributes of an \<^verbatim>\<open>ImageDownloader\<close>. \<open>priv_timeout\<close> is
  \<^verbatim>\<open>_timeout\<close>; \<open>total_downloaded\<close> and \<open>total_failed\<close> are the two
  name-mangled counters. The semaphore shows as the events \<open>Acquire\<close> and \<open>Release\<close>.
\<close>

record ImageDownloader =
  max_concurrent :: int
  delay_range :: "(real \<times> real) option"
  max_retries :: int
  default_headers :: "string \<rightharpoonup> string"
  priv_timeout :: int
  total_downloaded :: int
  total_failed :: int

definition init ::
  "int \<Rightarrow> (real \<times> real) option \<Rightarrow> int \<Rightarrow> int \<Rightarrow> (string \<rightharpoonup> string) option \<Rightarrow> ImageDownloader"
where
  "init mc dr mr t dh =
     \<lparr> max_concurrent = mc,
       delay_range = dr,
       max_retries = mr,
       default_headers = (case dh of None \<Rightarrow> Map.empty | Some h \<Rightarrow> h),
       priv_timeout = t,
       total_downloaded = 0,
       total_failed = 0 \<rparr>"

definition stats :: "ImageDownloader \<Rightarrow> (string \<rightharpoonup> int)" where
  "stats d =
     [ ''downloaded'' \<mapsto> total_downloaded d,
       ''failed'' \<mapsto> total_failed d,
       ''total'' \<mapsto> total_downloaded d + total_failed d ]"

definition timeout :: "ImageDownloader \<Rightarrow> int" where
  "timeout d = priv_timeout d"

text \<open>
  \<^verbatim>\<open>timeout\<close> is declared with \<^verbatim>\<open>@property\<close> and no setter: the property
  object has a getter and its setter slot is empty. Assigning to such an attribute raises
  \<^verbatim>\<open>AttributeError\<close> and stores nothing.
\<close>

definition timeout_fset :: "(ImageDownloader \<Rightarrow> int \<Rightarrow> ImageDownloader) option" where
  "timeout_fset = None"

definition set_timeout :: "ImageDownloader \<Rightarrow> int \<Rightarrow> (exn + unit) \<times> ImageDownloader" where
  "set_timeout d t =
     (case timeout_fset of
        None \<Rightarrow> (Inl AttributeError, d)
      | Some fset \<Rightarrow> (Inr (), fset d t))"

subsection \<open>The outside world\<close>

text \<open>
  The events of a run, in the order of the code: taking and giving back the semaphore,
  making the parent directory of a destination, entering iteration \<open>k\<close> of the retry
  loop, sleeping for a duration drawn from a range, sending the request for a URL,
  writing the body to a destination, and calling each of the two hooks.
\<close>

datatype event =
    Acquire
  | Release
  | Mkdir string
  | Attempt nat
  | Sleep real real
  | Get string
  | Write string
  | On_success
  | On_error task_download_error

text \<open>
  What one attempt meets: \<open>request\<close> is \<^verbatim>\<open>session.get\<close>, which raises (network,
  timeout, cancellation) or yields a response with a status; \<open>body_write\<close> is
  \<^verbatim>\<open>response.read()\<close> followed by the write through \<^verbatim>\<open>aiofiles\<close>, which
  raises or not. \<^verbatim>\<open>asyncio.sleep\<close> raises when the coroutine is cancelled or
  interrupted while it sleeps: \<open>pacing_sleep\<close> is what the sleep before the request
  meets, \<open>backoff_sleep\<close> what the sleep after a 429, a 403 or a caught exception meets,
  when there is such a sleep.
\<close>

record attempt_io =
  request :: "exn + int"
  body_write :: "exn option"
  pacing_sleep :: "exn option"
  backoff_sleep :: "exn option"

text \<open>
  The world of one task: \<open>urlparse\<close> is \<^verbatim>\<open>urllib.parse.urlparse\<close>, reduced to
  the two components the engine reads, scheme and netloc (it raises
  \<^verbatim>\<open>ValueError\<close> on some inputs); \<open>mkdir\<close> is the creation of the destination's
  parent directory; \<open>io n\<close> is what attempt \<open>n\<close> meets.
\<close>

record env =
  urlparse :: "string \<Rightarrow> exn + (string \<times> string)"
  mkdir :: "exn option"
  io :: "nat \<Rightarrow> attempt_io"

subsection \<open>Helpers\<close>

text \<open>
  \<^verbatim>\<open>random_delay(min_seconds, max_seconds)\<close>: returns at once when
  \<^verbatim>\<open>max_seconds <= 0.0\<close>, and otherwise sleeps for a duration drawn from the
  range; the event records the range, and \<open>nap\<close> is what the sleep meets: \<open>None\<close>
  when it ends by itself, \<open>Some e\<close> when \<open>e\<close> is raised in it. The first component of
  the result is the exception \<^verbatim>\<open>random_delay\<close> raises, if any. Seconds are reals.
\<close>

definition random_delay ::
  "real \<Rightarrow> real \<Rightarrow> exn option \<Rightarrow> event list \<Rightarrow> exn option \<times> event list"
where
  "random_delay min_seconds max_seconds nap tr =
     (if max_seconds \<le> 0 then (None, tr) else (nap, tr @ [Sleep min_seconds max_seconds]))"

definition build_headers ::
  "(string \<Rightarrow> exn + (string \<times> string)) \<Rightarrow> ImageDownloader \<Rightarrow> DownloadTask \<Rightarrow>
     exn + (string \<rightharpoonup> string)"
where
  "build_headers parse d task =
     (let hs = default_headers d ++ headers task in
      if referer task \<noteq> [] then
        (case parse (referer task) of
           Inl e \<Rightarrow> Inl e
         | Inr (scheme, netloc) \<Rightarrow>
             Inr (hs(''Referer'' \<mapsto> referer task, ''Origin'' \<mapsto> scheme @ ''://'' @ netloc)))
      else Inr hs)"

subsection \<open>One task\<close>

record loop_state =
  engine :: ImageDownloader
  errors :: "exn list"
  events :: "event list"

text \<open>
  How an iteration of the retry loop ends: it goes on to the next one, leaves the loop,
  returns from \<^verbatim>\<open>download_task\<close>, or an exception leaves it.
\<close>

datatype flow = Continue | Break | Return bool | Raise exn

text \<open>\<^verbatim>\<open>await random_delay(lo, hi)\<close> on the trace of the loop.\<close>

definition sleep_in ::
  "real \<Rightarrow> real \<Rightarrow> exn option \<Rightarrow> loop_state \<Rightarrow> exn option \<times> loop_state"
where
  "sleep_in lo hi nap s =
     (case random_delay lo hi nap (events s) of (x, tr) \<Rightarrow> (x, s\<lparr>events := tr\<rparr>))"

text \<open>
  The body of the handler \<^verbatim>\<open>except Exception as e\<close> of the retry loop; an
  exception raised by its sleep leaves the loop.
\<close>

definition except_handler ::
  "exn option \<Rightarrow> nat \<Rightarrow> exn \<Rightarrow> loop_state \<Rightarrow> flow \<times> loop_state"
where
  "except_handler nap attempt e s =
     (let s1 = s\<lparr>errors := errors s @ [e]\<rparr> in
      if int attempt < max_retries (engine s) - 1
      then (case sleep_in 2 5 nap s1 of
              (Some x, s2) \<Rightarrow> (Raise x, s2)
            | (None, s2) \<Rightarrow> (Continue, s2))
      else (Break, s1))"

text \<open>
  The \<^verbatim>\<open>try\<close> block of one iteration: \<open>Inl e\<close> when \<open>e\<close> is raised inside it,
  with the state reached by then.
\<close>

definition try_block ::
  "env \<Rightarrow> DownloadTask \<Rightarrow> nat \<Rightarrow> loop_state \<Rightarrow> (exn + flow) \<times> loop_state"
where
  "try_block w task attempt s =
     (case (case delay_range (engine s) of
              None \<Rightarrow> (None, s)
            | Some (lo, hi) \<Rightarrow> sleep_in lo hi (pacing_sleep (io w attempt)) s) of
        (Some x, s1) \<Rightarrow> (Inl x, s1)
      | (None, s1) \<Rightarrow>
      (case build_headers (urlparse w) (engine s1) task of
        Inl e \<Rightarrow> (Inl e, s1)
      | Inr hs \<Rightarrow>
          (let s2 = s1\<lparr>events := events s1 @ [Get (url task)]\<rparr> in
           case request (io w attempt) of
             Inl e \<Rightarrow> (Inl e, s2)
           | Inr status \<Rightarrow>
               if status = 200 then
                 (case body_write (io w attempt) of
                    Some e \<Rightarrow> (Inl e, s2)
                  | None \<Rightarrow>
                      (let s3 = s2\<lparr>events := events s2 @ [Write (save_path task)]\<rparr>;
                           s4 = s3\<lparr>engine := (engine s3)
                                  \<lparr>total_downloaded := total_downloaded (engine s3) + 1\<rparr>\<rparr>;
                           s5 = s4\<lparr>events := events s4 @ [On_success]\<rparr> in
                       case on_success task attempt of
                         Some e \<Rightarrow> (Inl e, s5)
                       | None \<Rightarrow> (Inr (Return True), s5)))
               else if status = 429 then
                 (let s3 = s2\<lparr>errors := errors s2 @ [Exception ''HTTP 429: Rate limited'']\<rparr>
                  in case sleep_in 5 10 (backoff_sleep (io w attempt)) s3 of
                       (Some x, s4) \<Rightarrow> (Inl x, s4)
                     | (None, s4) \<Rightarrow> (Inr Continue, s4))
               else if status = 403 then
                 (let s3 = s2\<lparr>errors := errors s2 @ [Exception ''HTTP 403: Forbidden'']\<rparr>
                  in case sleep_in 2 4 (backoff_sleep (io w attempt)) s3 of
                       (Some x, s4) \<Rightarrow> (Inl x, s4)
                     | (None, s4) \<Rightarrow> (Inr Continue, s4))
               else (Inr Continue, s2))))"

text \<open>
  One iteration of \<^verbatim>\<open>for attempt in range(self.max_retries)\<close>: the handler takes
  the exceptions of the \<^verbatim>\<open>try\<close> block that are instances of
  \<^verbatim>\<open>Exception\<close>; any other leaves the loop.
\<close>

definition attempt_body ::
  "env \<Rightarrow> DownloadTask \<Rightarrow> nat \<Rightarrow> loop_state \<Rightarrow> flow \<times> loop_state"
where
  "attempt_body w task attempt s =
     (case try_block w task attempt (s\<lparr>events := events s @ [Attempt attempt]\<rparr>) of
        (Inl e, s') \<Rightarrow>
          if is_Exception e
          then except_handler (backoff_sleep (io w attempt)) attempt e s'
          else (Raise e, s')
      | (Inr f, s') \<Rightarrow> (f, s'))"

text \<open>
  The loop over the attempt indices: \<open>Inr (Some b)\<close> when an iteration returned \<open>b\<close>,
  \<open>Inr None\<close> when the loop ended (exhausted, or left by \<^verbatim>\<open>break\<close>), \<open>Inl e\<close>
  when the exception \<open>e\<close> left it.
\<close>

fun run_attempts ::
  "env \<Rightarrow> DownloadTask \<Rightarrow> nat list \<Rightarrow> loop_state \<Rightarrow> (exn + bool option) \<times> loop_state"
where
  "run_attempts w task [] s = (Inr None, s)"
| "run_attempts w task (a # as) s =
     (case attempt_body w task a s of
        (Return b, s') \<Rightarrow> (Inr (Some b), s')
      | (Break, s') \<Rightarrow> (Inr None, s')
      | (Raise e, s') \<Rightarrow> (Inl e, s')
      | (Continue, s') \<Rightarrow> run_attempts w task as s')"

record outcome =
  result :: "exn + bool"
  engine_after :: ImageDownloader
  trace :: "event list"

text \<open>
  \<^verbatim>\<open>download_task\<close>, run alone on an engine whose semaphore has a free slot (it is
  made with \<^verbatim>\<open>max_concurrent\<close> slots). The block
  \<^verbatim>\<open>async with self._semaphore\<close> releases the semaphore on every way out, also
  when an exception leaves it.
\<close>

definition download_task :: "env \<Rightarrow> ImageDownloader \<Rightarrow> DownloadTask \<Rightarrow> outcome" where
  "download_task w d task =
     (let tr0 = [Acquire, Mkdir (save_path task)] in
      case mkdir w of
        Some e \<Rightarrow> \<lparr> result = Inl e, engine_after = d, trace = tr0 @ [Release] \<rparr>
      | None \<Rightarrow>
          (case run_attempts w task [0 ..< nat (max_retries d)]
                  \<lparr> engine = d, errors = [], events = tr0 \<rparr> of
             (Inl e, s) \<Rightarrow>
               \<lparr> result = Inl e, engine_after = engine s, trace = events s @ [Release] \<rparr>
           | (Inr (Some b), s) \<Rightarrow>
               \<lparr> result = Inr b, engine_after = engine s, trace = events s @ [Release] \<rparr>
           | (Inr None, s) \<Rightarrow>
               (let d' = (engine s)\<lparr>total_failed := total_failed (engine s) + 1\<rparr>;
                    error = TaskDownloadError (url task) (errors s);
                    tr = events s @ [On_error error] in
                case on_error task error of
                  Some e \<Rightarrow> \<lparr> result = Inl e, engine_after = d', trace = tr @ [Release] \<rparr>
                | None \<Rightarrow> \<lparr> result = Inr False, engine_after = d', trace = tr @ [Release] \<rparr>)))"

subsection \<open>A batch\<close>

text \<open>
  \<^verbatim>\<open>asyncio.gather(*coroutines, return_exceptions=True)\<close>: one result per task,
  in the order of the tasks, an exception that left a coroutine being its result.
  \<^verbatim>\<open>KeyboardInterrupt\<close> and \<^verbatim>\<open>SystemExit\<close> are the exception: the event loop
  re-raises them, so the batch does not come to its end (\<open>Inl\<close>). The coroutines are run
  one after the other here, task \<open>i\<close> in the world \<open>W i\<close>: they share nothing but the two
  counters, which each of them only increments.
\<close>

fun stops_event_loop :: "exn \<Rightarrow> bool" where
  "stops_event_loop KeyboardInterrupt = True"
| "stops_event_loop SystemExit = True"
| "stops_event_loop e = False"

fun gather ::
  "(nat \<Rightarrow> env) \<Rightarrow> nat \<Rightarrow> ImageDownloader \<Rightarrow> DownloadTask list \<Rightarrow>
     exn + ((exn + bool) list \<times> ImageDownloader)"
where
  "gather W i d [] = Inr ([], d)"
| "gather W i d (task # tasks) =
     (let o1 = download_task (W i) d task in
      case (case result o1 of
              Inl e \<Rightarrow> (if stops_event_loop e then Some e else None)
            | Inr b \<Rightarrow> None) of
        Some e \<Rightarrow> Inl e
      | None \<Rightarrow>
          (case gather W (Suc i) (engine_after o1) tasks of
             Inl e \<Rightarrow> Inl e
           | Inr (rs, d') \<Rightarrow> Inr (result o1 # rs, d')))"

definition download_tasks ::
  "(nat \<Rightarrow> env) \<Rightarrow> ImageDownloader \<Rightarrow> DownloadTask list \<Rightarrow>
     exn + ((int \<times> int) \<times> ImageDownloader)"
where
  "download_tasks W d tasks =
     (case gather W 0 d tasks of
        Inl e \<Rightarrow> Inl e
      | Inr (results, d1) \<Rightarrow>
          (let downloaded_count = int (count_list results (Inr True));
               failed_count = int (length tasks) - downloaded_count;
               d2 = d1\<lparr>total_downloaded := total_downloaded d1 + downloaded_count\<rparr>;
               d3 = d2\<lparr>total_failed := total_failed d2 + failed_count\<rparr>
           in Inr ((downloaded_count, failed_count), d3)))"

subsection \<open>Reading a trace\<close>

fun is_attempt :: "event \<Rightarrow> bool" where
  "is_attempt (Attempt k) = True"
| "is_attempt e = False"

fun is_hook :: "event \<Rightarrow> bool" where
  "is_hook On_success = True"
| "is_hook (On_error err) = True"
| "is_hook e = False"

fun is_on_error :: "event \<Rightarrow> bool" where
  "is_on_error (On_error err) = True"
| "is_on_error e = False"

fun is_sleep :: "event \<Rightarrow> bool" where
  "is_sleep (Sleep lo hi) = True"
| "is_sleep e = False"

text \<open>A world in which no sleep of the retry loop is cancelled or interrupted.\<close>

definition undisturbed :: "env \<Rightarrow> bool" where
  "undisturbed w = (\<forall>a. pacing_sleep (io w a) = None \<and> backoff_sleep (io w a) = None)"

text \<open>
  A task that succeeds at its first attempt: the directory can be made, one attempt at
  least is allowed, the pacing sleep ends by itself, the headers can be built, the
  request is answered 200, the body is read and written, and \<^verbatim>\<open>on_success\<close>
  returns.
\<close>

definition first_attempt_succeeds :: "env \<Rightarrow> ImageDownloader \<Rightarrow> DownloadTask \<Rightarrow> bool" where
  "first_attempt_succeeds w d task =
     (mkdir w = None \<and> 1 \<le> max_retries d \<and> pacing_sleep (io w 0) = None
      \<and> (case build_headers (urlparse w) d task of Inl e \<Rightarrow> False | Inr hs \<Rightarrow> True)
      \<and> request (io w 0) = Inr 200 \<and> body_write (io w 0) = None
      \<and> on_success task 0 = None)"

text \<open>The three ranges the retry loop itself sleeps for: after a 429, a 403, an exception.\<close>

definition backoff_ranges :: "(real \<times> real) list" where
  "backoff_ranges = [(5, 10), (2, 4), (2, 5)]"

text \<open>
  The events an iteration adds after its pacing delay: the request, the write, the call of
  \<^verbatim>\<open>on_success\<close>, and a sleep for one of the ranges of the retry loop itself.
\<close>

fun after_pacing :: "event \<Rightarrow> bool" where
  "after_pacing (Sleep lo hi) = ((lo, hi) \<in> set backoff_ranges)"
| "after_pacing (Get u) = True"
| "after_pacing (Write p) = True"
| "after_pacing On_success = True"
| "after_pacing e = False"

text \<open>What the pacing of one iteration adds to the trace.\<close>

definition pacing :: "(real \<times> real) option \<Rightarrow> event list" where
  "pacing dr = (case dr of None \<Rightarrow> [] | Some (lo, hi) \<Rightarrow> snd (random_delay lo hi None []))"

text \<open>
  A trace in which every start of an attempt is followed at once by a sleep for the
  range \<open>(lo, hi)\<close>.
\<close>

fun paced :: "real \<Rightarrow> real \<Rightarrow> event list \<Rightarrow> bool" where
  "paced lo hi [] = True"
| "paced lo hi (x # tr) =
     ((if is_attempt x then take 1 tr = [Sleep lo hi] else True) \<and> paced lo hi tr)"

text \<open>The number of attempts a run made: the iterations of the retry loop it entered.\<close>

definition count_attempts :: "event list \<Rightarrow> nat" where
  "count_attempts tr = length (filter is_attempt tr)"

text \<open>
  The exception the I/O of an attempt raises, if any: the one of the request (network,
  timeout), or, after a status 200, the one of reading the body and writing the file.
\<close>

definition io_exception :: "attempt_io \<Rightarrow> exn option" where
  "io_exception a =
     (case request a of
        Inl e \<Rightarrow> Some e
      | Inr status \<Rightarrow> if status = 200 then body_write a else None)"

text \<open>
  The exception attempt \<open>a\<close> raises before any hook is called, if any: the one of
  building the headers, or else the one of its I/O.
\<close>

definition attempt_exception ::
  "env \<Rightarrow> ImageDownloader \<Rightarrow> DownloadTask \<Rightarrow> nat \<Rightarrow> exn option"
where
  "attempt_exception w d task a =
     (case build_headers (urlparse w) d task of
        Inl e \<Rightarrow> Some e
      | Inr hs \<Rightarrow> io_exception (io w a))"

text \<open>
  The exception the \<^verbatim>\<open>try\<close> block of attempt \<open>a\<close> raises when no sleep is
  disturbed, if any: the one of building the headers, of the I/O, or else, after the
  file is written, the one of \<^verbatim>\<open>on_success\<close>.
\<close>

definition try_exception ::
  "env \<Rightarrow> ImageDownloader \<Rightarrow> DownloadTask \<Rightarrow> nat \<Rightarrow> exn option"
where
  "try_exception w d task a =
     (case build_headers (urlparse w) d task of
        Inl e \<Rightarrow> Some e
      | Inr hs \<Rightarrow>
          (case request (io w a) of
             Inl e \<Rightarrow> Some e
           | Inr status \<Rightarrow>
               if status = 200
               then (case body_write (io w a) of Some e \<Rightarrow> Some e | None \<Rightarrow> on_success task a)
               else None))"

subsection \<open>Example inputs\<close>

text \<open>
  \<^verbatim>\<open>urllib.parse.urlparse\<close> is Python's, not the repository's. This is the part of
  it that computes the scheme and the netloc of an ASCII URL: leading spaces and control
  characters are dropped, then every tab, carriage return and line feed; the scheme is
  the text before the first colon, lower-cased, when that text is not empty, starts with
  a letter and is made of scheme characters; the netloc is what follows
  \<^verbatim>\<open>//\<close> up to the first of \<^verbatim>\<open>/ ? #\<close>; unbalanced brackets in the
  netloc raise \<^verbatim>\<open>ValueError\<close>. What Python checks further of a host written
  between brackets is left out: the model is meant for netlocs without a pair of brackets.
\<close>

definition ascii_letters :: string where
  "ascii_letters = ''abcdefghijklmnopqrstuvwxyzABCDEFGHIJKLMNOPQRSTUVWXYZ''"

definition scheme_chars :: string where
  "scheme_chars = ascii_letters @ ''0123456789+-.''"

definition lower_char :: "char \<Rightarrow> char" where
  "lower_char c =
     (case map_of (zip ''ABCDEFGHIJKLMNOPQRSTUVWXYZ'' ''abcdefghijklmnopqrstuvwxyz'') c of
        Some l \<Rightarrow> l
      | None \<Rightarrow> c)"

definition py_urlparse :: "string \<Rightarrow> exn + (string \<times> string)" where
  "py_urlparse u0 =
     (let u = filter (\<lambda>c. c \<notin> set [CHR 0x09, CHR 0x0A, CHR 0x0D])
                (dropWhile (\<lambda>c. (of_char c :: nat) \<le> 32) u0);
          pre = takeWhile (\<lambda>c. c \<noteq> CHR '':'') u;
          (scheme, rest) =
            (if CHR '':'' \<in> set u \<and> pre \<noteq> [] \<and> hd u \<in> set ascii_letters
                \<and> list_all (\<lambda>c. c \<in> set scheme_chars) pre
             then (map lower_char pre, drop (Suc (length pre)) u)
             else ([], u));
          netloc =
            (if take 2 rest = ''//''
             then takeWhile (\<lambda>c. c \<notin> set ''/?#'') (drop 2 rest)
             else [])
      in if (CHR ''['' \<in> set netloc) \<noteq> (CHR '']'' \<in> set netloc)
         then Inl (ValueError ''Invalid IPv6 URL'')
         else Inr (scheme, netloc))"

definition example_task :: DownloadTask where
  "example_task =
     \<lparr> url = ''https://img.example.com/001.jpg'',
       save_path = ''out/ch1/001.jpg'',
       headers = [''Accept'' \<mapsto> ''image/*''],
       cookies = Map.empty,
       referer = ''https://example.com/x'',
       on_success = (\<lambda>_. None),
       on_error = (\<lambda>_. None) \<rparr>"

text \<open>The engine with the defaults of the constructor.\<close>

definition example_engine :: ImageDownloader where
  "example_engine = init 3 (Some (1, 3)) 3 60 None"

text \<open>An engine whose pacing is switched off by the upper bound of its range.\<close>

definition engine_unpaced :: ImageDownloader where
  "engine_unpaced = init 3 (Some (1, 0)) 3 60 None"

text \<open>An engine that allows a single attempt.\<close>

definition engine_single_attempt :: ImageDownloader where
  "engine_single_attempt = init 3 (Some (1, 3)) 1 60 None"

text \<open>A world where the directory can be made and every request is answered \<open>status\<close>.\<close>

definition world_status :: "int \<Rightarrow> env" where
  "world_status status =
     \<lparr> urlparse = py_urlparse,
       mkdir = None,
       io = (\<lambda>_. \<lparr> request = Inr status, body_write = None,
                    pacing_sleep = None, backoff_sleep = None \<rparr>) \<rparr>"

text \<open>A world where every request times out.\<close>

definition world_timeout :: env where
  "world_timeout =
     \<lparr> urlparse = py_urlparse,
       mkdir = None,
       io = (\<lambda>_. \<lparr> request = Inl TimeoutError, body_write = None,
                    pacing_sleep = None, backoff_sleep = None \<rparr>) \<rparr>"

text \<open>
  A world where the destination is not usable: every request is answered 200 and opening
  the file for writing raises.
\<close>

definition world_bad_destination :: env where
  "world_bad_destination =
     \<lparr> urlparse = py_urlparse,
       mkdir = None,
       io = (\<lambda>_. \<lparr> request = Inr 200,
                    body_write = Some (OSError ''[Errno 36] File name too long''),
                    pacing_sleep = None, backoff_sleep = None \<rparr>) \<rparr>"

text \<open>A world where the parent directory of the destination cannot be made.\<close>

definition world_mkdir_fails :: env where
  "world_mkdir_fails =
     \<lparr> urlparse = py_urlparse,
       mkdir = Some (OSError ''[Errno 13] Permission denied''),
       io = (\<lambda>_. \<lparr> request = Inr 200, body_write = None,
                    pacing_sleep = None, backoff_sleep = None \<rparr>) \<rparr>"

text \<open>A task whose \<^verbatim>\<open>on_success\<close> hook raises each time it is called.\<close>

definition task_raising_hook :: DownloadTask where
  "task_raising_hook =
     example_task\<lparr>on_success := (\<lambda>_. Some (Exception ''hook failed''))\<rparr>"

text \<open>A task whose \<^verbatim>\<open>on_error\<close> hook raises.\<close>

definition task_raising_on_error :: DownloadTask where
  "task_raising_on_error =
     example_task\<lparr>on_error := (\<lambda>_. Some (Exception ''on_error failed''))\<rparr>"

text \<open>A task whose referer has an opening bracket and no closing one in its netloc.\<close>

definition task_bad_referer :: DownloadTask where
  "task_bad_referer = example_task\<lparr>referer := ''http://[::1/x''\<rparr>"

text \<open>A task whose referer names a user and a port.\<close>

definition task_userinfo_referer :: DownloadTask where
  "task_userinfo_referer = example_task\<lparr>referer := ''https://user@example.com:8080/x''\<rparr>"

text \<open>A world where the coroutine is cancelled during the first request.\<close>

definition world_cancelled :: env where
  "world_cancelled =
     \<lparr> urlparse = py_urlparse,
       mkdir = None,
       io = (\<lambda>_. \<lparr> request = Inl CancelledError, body_write = None,
                    pacing_sleep = None, backoff_sleep = None \<rparr>) \<rparr>"

section \<open>Lemmas about the retry loop\<close>

text \<open>
  What one iteration and the whole loop do to the error list, to the counters and to the
  trace. The engine's configuration never changes during a run; only its two counters
  do.
\<close>

lemma sleep_in_eq:
  "sleep_in lo hi nap s =
     (if hi \<le> 0 then (None, s) else (nap, s\<lparr>events := events s @ [Sleep lo hi]\<rparr>))"
  by (simp add: sleep_in_def random_delay_def)

lemma try_block_raises:
  assumes "attempt_exception w (engine s) task a = Some e"
    and "pacing_sleep (io w a) = None"
  shows "\<exists>s'. try_block w task a s = (Inl e, s') \<and> engine s' = engine s \<and> errors s' = errors s
     \<and> filter is_attempt (events s') = filter is_attempt (events s)
     \<and> filter is_hook (events s') = filter is_hook (events s)"
  using assms
  by (auto simp: try_block_def attempt_exception_def io_exception_def Let_def sleep_in_eq
           split: option.splits sum.splits if_splits prod.splits)

lemma attempt_body_raises:
  assumes "attempt_exception w (engine s) task a = Some e"
    and "pacing_sleep (io w a) = None"
  shows "\<exists>s'. attempt_body w task a s =
        (if is_Exception e then except_handler (backoff_sleep (io w a)) a e s' else (Raise e, s'))
     \<and> engine s' = engine s
     \<and> errors s' = errors s
     \<and> filter is_attempt (events s') = filter is_attempt (events s) @ [Attempt a]
     \<and> filter is_hook (events s') = filter is_hook (events s)"
proof -
  let ?s0 = "s\<lparr>events := events s @ [Attempt a]\<rparr>"
  from assms(1) have "attempt_exception w (engine ?s0) task a = Some e"
    by simp
  from try_block_raises [OF this assms(2)]
  obtain s' where t: "try_block w task a ?s0 = (Inl e, s')"
    and p: "engine s' = engine ?s0" "errors s' = errors ?s0"
      "filter is_attempt (events s') = filter is_attempt (events ?s0)"
      "filter is_hook (events s') = filter is_hook (events ?s0)"
    by blast
  from t have "attempt_body w task a s =
      (if is_Exception e then except_handler (backoff_sleep (io w a)) a e s' else (Raise e, s'))"
    by (simp add: attempt_body_def)
  with p show ?thesis
    by (intro exI [of _ s']) simp
qed

lemma run_attempts_all_raise:
  assumes "\<forall>a<n. attempt_exception w (engine s) task a = Some (e a) \<and> is_Exception (e a)"
    and "undisturbed w"
    and "int n = max_retries (engine s)"
    and "k \<le> n"
  shows "\<exists>s'. run_attempts w task [k ..< n] s = (Inr None, s') \<and> engine s' = engine s
     \<and> errors s' = errors s @ map e [k ..< n]
     \<and> filter is_attempt (events s') = filter is_attempt (events s) @ map Attempt [k ..< n]
     \<and> filter is_hook (events s') = filter is_hook (events s)"
  using assms
proof (induction "n - k" arbitrary: k s)
  case 0
  then show ?case by simp
next
  case (Suc m)
  then have kn: "k < n" by simp
  then have ex: "attempt_exception w (engine s) task k = Some (e k)" and ie: "is_Exception (e k)"
    using Suc.prems by simp_all
  have q: "pacing_sleep (io w k) = None" "backoff_sleep (io w k) = None"
    using Suc.prems(2) by (simp_all add: undisturbed_def)
  from attempt_body_raises [OF ex q(1)] ie q(2)
  obtain s1 where b: "attempt_body w task k s = except_handler None k (e k) s1"
    and p1: "engine s1 = engine s" "errors s1 = errors s"
      "filter is_attempt (events s1) = filter is_attempt (events s) @ [Attempt k]"
      "filter is_hook (events s1) = filter is_hook (events s)"
    by auto
  have up: "[k ..< n] = k # [Suc k ..< n]"
    using kn by (simp add: upt_conv_Cons)
  show ?case
  proof (cases "Suc k < n")
    case True
    let ?s2 = "(s1\<lparr>errors := errors s1 @ [e k]\<rparr>)\<lparr>events := events s1 @ [Sleep 2 5]\<rparr>"
    from True Suc.prems p1 have h: "except_handler None k (e k) s1 = (Continue, ?s2)"
      by (simp add: except_handler_def Let_def sleep_in_eq)
    have e2: "engine ?s2 = engine s" using p1 by simp
    have m: "m = n - Suc k" using Suc.hyps by simp
    have a2: "\<forall>a<n. attempt_exception w (engine ?s2) task a = Some (e a) \<and> is_Exception (e a)"
      using Suc.prems e2 by simp
    have n2: "int n = max_retries (engine ?s2)"
      using Suc.prems e2 by simp
    from Suc.hyps(1) [OF m a2 Suc.prems(2) n2] True
    obtain s' where r: "run_attempts w task [Suc k ..< n] ?s2 = (Inr None, s')"
      and p2: "engine s' = engine ?s2" "errors s' = errors ?s2 @ map e [Suc k ..< n]"
        "filter is_attempt (events s') = filter is_attempt (events ?s2) @ map Attempt [Suc k ..< n]"
        "filter is_hook (events s') = filter is_hook (events ?s2)"
      by auto
    have "run_attempts w task [k ..< n] s = (Inr None, s')"
      using up b h r by simp
    then show ?thesis
      using p1 p2 up by simp
  next
    case False
    with kn have last: "Suc k = n" by simp
    let ?s2 = "s1\<lparr>errors := errors s1 @ [e k]\<rparr>"
    from last Suc.prems p1 have h: "except_handler None k (e k) s1 = (Break, ?s2)"
      by (auto simp: except_handler_def Let_def)
    have "run_attempts w task [k ..< n] s = (Inr None, ?s2)"
      using up b h by simp
    then show ?thesis
      using p1 up last by simp
  qed
qed

lemma download_task_all_raise:
  assumes "mkdir w = None"
    and "int n = max_retries d"
    and "\<forall>a<n. attempt_exception w d task a = Some (e a) \<and> is_Exception (e a)"
    and "undisturbed w"
  shows "\<exists>r. download_task w d task =
       \<lparr> result = (case on_error task (TaskDownloadError (url task) (map e [0 ..< n])) of
                      Some x \<Rightarrow> Inl x | None \<Rightarrow> Inr False),
         engine_after = d\<lparr>total_failed := total_failed d + 1\<rparr>,
         trace = r \<rparr>
     \<and> filter is_attempt r = map Attempt [0 ..< n]
     \<and> filter is_hook r = [On_error (TaskDownloadError (url task) (map e [0 ..< n]))]"
proof -
  let ?s0 = "\<lparr> engine = d, errors = [], events = [Acquire, Mkdir (save_path task)] \<rparr>"
  have a: "\<forall>a<n. attempt_exception w (engine ?s0) task a = Some (e a) \<and> is_Exception (e a)"
    using assms(3) by simp
  have b: "int n = max_retries (engine ?s0)"
    using assms(2) by simp
  from run_attempts_all_raise [OF a assms(4) b, of 0]
  obtain s' where r: "run_attempts w task [0 ..< n] ?s0 = (Inr None, s')"
    and p: "engine s' = d" "errors s' = map e [0 ..< n]"
      "filter is_attempt (events s') = map Attempt [0 ..< n]"
      "filter is_hook (events s') = []"
    by auto
  have n: "nat (max_retries d) = n"
    using assms(2) by simp
  show ?thesis
    using assms(1) r p n
    by (cases "on_error task (TaskDownloadError (url task) (map e [0 ..< n]))")
       (simp_all add: download_task_def Let_def)
qed

lemma example_headers_ok:
  "build_headers py_urlparse example_engine example_task =
     Inr ((default_headers example_engine ++ headers example_task)
            (''Referer'' \<mapsto> ''https://example.com/x'', ''Origin'' \<mapsto> ''https://example.com''))"
proof -
  have p: "py_urlparse ''https://example.com/x'' = Inr (''https'', ''example.com'')"
    by code_simp
  show ?thesis
    by (simp add: build_headers_def example_task_def p)
qed

lemma try_block_return: "try_block w task a s = (Inr (Return b), s') \<Longrightarrow> b"
  by (auto simp: try_block_def Let_def sleep_in_eq
           split: option.splits sum.splits if_splits prod.splits)

lemma attempt_body_return: "attempt_body w task a s = (Return b, s') \<Longrightarrow> b"
  by (auto simp: attempt_body_def except_handler_def Let_def sleep_in_eq
           split: sum.splits if_splits prod.splits option.splits dest: try_block_return)

lemma run_attempts_return: "run_attempts w task as s = (Inr (Some b), s') \<Longrightarrow> b"
proof (induction as arbitrary: s)
  case Nil
  then show ?case by simp
next
  case (Cons a as)
  obtain f s1 where b: "attempt_body w task a s = (f, s1)"
    by (cases "attempt_body w task a s")
  show ?case
  proof (cases f)
    case Continue
    with Cons b show ?thesis by simp
  next
    case Break
    with Cons.prems b show ?thesis by simp
  next
    case (Return x)
    with Cons.prems b attempt_body_return [of w task a s x s1] show ?thesis by simp
  next
    case (Raise x)
    with Cons.prems b show ?thesis by simp
  qed
qed

lemma try_block_events:
  "\<exists>ys. events (snd (try_block w task a s)) = events s @ pacing (delay_range (engine s)) @ ys
     \<and> list_all after_pacing ys"
  by (auto simp: try_block_def pacing_def Let_def random_delay_def sleep_in_eq backoff_ranges_def
           split: option.splits sum.splits prod.splits)

lemma try_block_config:
  "delay_range (engine (snd (try_block w task a s))) = delay_range (engine s)
   \<and> max_retries (engine (snd (try_block w task a s))) = max_retries (engine s)
   \<and> default_headers (engine (snd (try_block w task a s))) = default_headers (engine s)
   \<and> total_failed (engine (snd (try_block w task a s))) = total_failed (engine s)"
  by (auto simp: try_block_def Let_def sleep_in_eq split: option.splits sum.splits prod.splits)

lemma except_handler_events:
  "\<exists>ys. events (snd (except_handler nap a e s)) = events s @ ys \<and> list_all after_pacing ys"
  by (auto simp: except_handler_def Let_def sleep_in_eq backoff_ranges_def split: option.splits)

lemma except_handler_config: "engine (snd (except_handler nap a e s)) = engine s"
  by (auto simp: except_handler_def Let_def sleep_in_eq split: option.splits)

lemma attempt_body_events:
  "\<exists>ys. events (snd (attempt_body w task a s)) =
       events s @ Attempt a # pacing (delay_range (engine s)) @ ys
     \<and> list_all after_pacing ys"
proof -
  let ?s0 = "s\<lparr>events := events s @ [Attempt a]\<rparr>"
  obtain r s1 where t: "try_block w task a ?s0 = (r, s1)"
    by (cases "try_block w task a ?s0")
  from try_block_events [of w task a ?s0] t
  obtain ys where y: "events s1 = events s @ Attempt a # pacing (delay_range (engine s)) @ ys"
    "list_all after_pacing ys"
    by auto
  show ?thesis
  proof (cases r)
    case (Inl e)
    show ?thesis
    proof (cases "is_Exception e")
      case True
      from except_handler_events [of "backoff_sleep (io w a)" a e s1]
      obtain zs where z: "events (snd (except_handler (backoff_sleep (io w a)) a e s1)) =
          events s1 @ zs" "list_all after_pacing zs"
        by auto
      have "events (snd (attempt_body w task a s)) =
          events s @ Attempt a # pacing (delay_range (engine s)) @ (ys @ zs)"
        using t Inl True y z by (simp add: attempt_body_def)
      moreover have "list_all after_pacing (ys @ zs)"
        using y z by simp
      ultimately show ?thesis by blast
    next
      case False
      then have "events (snd (attempt_body w task a s)) = events s1"
        using t Inl by (simp add: attempt_body_def)
      with y show ?thesis by auto
    qed
  next
    case (Inr f)
    then have "events (snd (attempt_body w task a s)) = events s1"
      using t by (simp add: attempt_body_def)
    with y show ?thesis by auto
  qed
qed

lemma attempt_body_config:
  "delay_range (engine (snd (attempt_body w task a s))) = delay_range (engine s)
   \<and> max_retries (engine (snd (attempt_body w task a s))) = max_retries (engine s)
   \<and> default_headers (engine (snd (attempt_body w task a s))) = default_headers (engine s)
   \<and> total_failed (engine (snd (attempt_body w task a s))) = total_failed (engine s)"
proof -
  let ?s0 = "s\<lparr>events := events s @ [Attempt a]\<rparr>"
  obtain r s1 where t: "try_block w task a ?s0 = (r, s1)"
    by (cases "try_block w task a ?s0")
  from try_block_config [of w task a ?s0] t
  have c: "delay_range (engine s1) = delay_range (engine s)"
    "max_retries (engine s1) = max_retries (engine s)"
    "default_headers (engine s1) = default_headers (engine s)"
    "total_failed (engine s1) = total_failed (engine s)"
    by simp_all
  show ?thesis
    using t c by (cases r) (simp_all add: attempt_body_def except_handler_config)
qed

lemma paced_append:
  "paced lo hi tr \<Longrightarrow> list_all (\<lambda>x. \<not> is_attempt x) ys \<Longrightarrow> paced lo hi (tr @ ys)"
proof (induction tr)
  case Nil
  then show ?case
    by (induction ys) simp_all
next
  case (Cons x tr)
  then show ?case
    by (cases tr) (auto split: if_splits)
qed

lemma paced_append_attempt:
  "paced lo hi tr \<Longrightarrow> list_all (\<lambda>x. \<not> is_attempt x) ys \<Longrightarrow>
     paced lo hi (tr @ Attempt k # Sleep lo hi # ys)"
proof (induction tr)
  case Nil
  have "paced lo hi ([] @ ys)"
    using Nil paced_append [of lo hi "[]" ys] by simp
  then show ?case by simp
next
  case (Cons x tr)
  then show ?case
    by (cases tr) (auto split: if_splits)
qed

lemma paced_nth:
  "paced lo hi tr \<Longrightarrow> i < length tr \<Longrightarrow> tr ! i = Attempt k \<Longrightarrow>
     Suc i < length tr \<and> tr ! Suc i = Sleep lo hi"
proof (induction tr arbitrary: i)
  case Nil
  then show ?case by simp
next
  case (Cons x tr)
  show ?case
  proof (cases i)
    case 0
    with Cons.prems have "take 1 tr = [Sleep lo hi]" by simp
    then show ?thesis
      using 0 by (cases tr) simp_all
  next
    case (Suc j)
    with Cons show ?thesis by simp
  qed
qed

lemma after_pacing_not_attempt: "after_pacing x \<Longrightarrow> \<not> is_attempt x"
  by (cases x) simp_all

lemma list_all_after_pacing:
  "list_all after_pacing ys \<Longrightarrow> list_all (\<lambda>x. \<not> is_attempt x) ys"
  by (induction ys) (simp_all add: after_pacing_not_attempt)

lemma attempt_body_paced:
  assumes "paced lo hi (events s)" and "delay_range (engine s) = Some (lo, hi)" and "0 < hi"
  shows "paced lo hi (events (snd (attempt_body w task a s)))"
proof -
  from attempt_body_events [of w task a s]
  obtain ys where y: "events (snd (attempt_body w task a s)) =
      events s @ Attempt a # pacing (delay_range (engine s)) @ ys" "list_all after_pacing ys"
    by blast
  have "pacing (delay_range (engine s)) = [Sleep lo hi]"
    using assms(2,3) by (simp add: pacing_def random_delay_def)
  with y have "events (snd (attempt_body w task a s)) = events s @ Attempt a # Sleep lo hi # ys"
    by simp
  then show ?thesis
    using paced_append_attempt [OF assms(1) list_all_after_pacing [OF y(2)]] by simp
qed

lemma run_attempts_paced:
  assumes "paced lo hi (events s)" and "delay_range (engine s) = Some (lo, hi)" and "0 < hi"
  shows "paced lo hi (events (snd (run_attempts w task as s)))"
  using assms
proof (induction as arbitrary: s)
  case Nil
  then show ?case by simp
next
  case (Cons a as)
  obtain f s1 where b: "attempt_body w task a s = (f, s1)"
    by (cases "attempt_body w task a s")
  have p: "paced lo hi (events s1)"
    using attempt_body_paced [OF Cons.prems, of w task a] b by simp
  have c: "delay_range (engine s1) = Some (lo, hi)"
    using attempt_body_config [of w task a s] b Cons.prems(2) by simp
  show ?case
  proof (cases f)
    case Continue
    with b Cons.IH [OF p c Cons.prems(3)] show ?thesis by simp
  next
    case Break
    with b p show ?thesis by simp
  next
    case (Return x)
    with b p show ?thesis by simp
  next
    case (Raise x)
    with b p show ?thesis by simp
  qed
qed

lemma attempt_body_unpaced:
  assumes "list_all (\<lambda>x. is_sleep x \<longrightarrow> after_pacing x) (events s)"
    and "delay_range (engine s) = Some (lo, hi)" and "hi \<le> 0"
  shows "list_all (\<lambda>x. is_sleep x \<longrightarrow> after_pacing x) (events (snd (attempt_body w task a s)))"
proof -
  from attempt_body_events [of w task a s]
  obtain ys where y: "events (snd (attempt_body w task a s)) =
      events s @ Attempt a # pacing (delay_range (engine s)) @ ys" "list_all after_pacing ys"
    by blast
  have "pacing (delay_range (engine s)) = []"
    using assms(2,3) by (simp add: pacing_def random_delay_def)
  with y have e: "events (snd (attempt_body w task a s)) = events s @ Attempt a # ys"
    by simp
  have "list_all (\<lambda>x. is_sleep x \<longrightarrow> after_pacing x) ys"
    using y(2) by (induction ys) simp_all
  with assms(1) show ?thesis
    unfolding e by simp
qed

lemma run_attempts_unpaced:
  assumes "list_all (\<lambda>x. is_sleep x \<longrightarrow> after_pacing x) (events s)"
    and "delay_range (engine s) = Some (lo, hi)" and "hi \<le> 0"
  shows "list_all (\<lambda>x. is_sleep x \<longrightarrow> after_pacing x) (events (snd (run_attempts w task as s)))"
  using assms
proof (induction as arbitrary: s)
  case Nil
  then show ?case by simp
next
  case (Cons a as)
  obtain f s1 where b: "attempt_body w task a s = (f, s1)"
    by (cases "attempt_body w task a s")
  have p: "list_all (\<lambda>x. is_sleep x \<longrightarrow> after_pacing x) (events s1)"
    using attempt_body_unpaced [OF Cons.prems, of w task a] b by simp
  have c: "delay_range (engine s1) = Some (lo, hi)"
    using attempt_body_config [of w task a s] b Cons.prems(2) by simp
  show ?case
  proof (cases f)
    case Continue
    with b Cons.IH [OF p c Cons.prems(3)] show ?thesis by simp
  next
    case Break
    with b p show ?thesis by simp
  next
    case (Return x)
    with b p show ?thesis by simp
  next
    case (Raise x)
    with b p show ?thesis by simp
  qed
qed

lemma download_task_trace:
  "\<exists>s ys. trace (download_task w d task) = events s @ ys
     \<and> list_all (\<lambda>x. \<not> is_attempt x \<and> \<not> is_sleep x) ys
     \<and> (s = \<lparr> engine = d, errors = [], events = [Acquire, Mkdir (save_path task)] \<rparr>
        \<or> s = snd (run_attempts w task [0 ..< nat (max_retries d)]
                 \<lparr> engine = d, errors = [], events = [Acquire, Mkdir (save_path task)] \<rparr>))"
proof (cases "mkdir w")
  case (Some e)
  then have "trace (download_task w d task) =
      events \<lparr> engine = d, errors = [], events = [Acquire, Mkdir (save_path task)] \<rparr> @ [Release]"
    by (simp add: download_task_def)
  then show ?thesis
    by (intro exI [of _ "\<lparr> engine = d, errors = [], events = [Acquire, Mkdir (save_path task)] \<rparr>"]
              exI [of _ "[Release]"]) simp
next
  case None
  let ?s0 = "\<lparr> engine = d, errors = [], events = [Acquire, Mkdir (save_path task)] \<rparr>"
  obtain r s where l: "run_attempts w task [0 ..< nat (max_retries d)] ?s0 = (r, s)"
    by (cases "run_attempts w task [0 ..< nat (max_retries d)] ?s0")
  have "\<exists>ys. trace (download_task w d task) = events s @ ys
      \<and> list_all (\<lambda>x. \<not> is_attempt x \<and> \<not> is_sleep x) ys"
    using None l
    by (cases "on_error task (TaskDownloadError (url task) (errors s))")
       (auto simp: download_task_def Let_def split: sum.splits option.splits)
  with l show ?thesis
    by (metis snd_conv)
qed

lemma download_task_paced:
  assumes "delay_range d = Some (lo, hi)" and "0 < hi"
  shows "paced lo hi (trace (download_task w d task))"
proof -
  let ?s0 = "\<lparr> engine = d, errors = [], events = [Acquire, Mkdir (save_path task)] \<rparr>"
  have p0: "paced lo hi (events ?s0)" by simp
  have c0: "delay_range (engine ?s0) = Some (lo, hi)" using assms(1) by simp
  have p1: "paced lo hi (events (snd (run_attempts w task [0 ..< nat (max_retries d)] ?s0)))"
    by (rule run_attempts_paced [OF p0 c0 assms(2)])
  from download_task_trace [of w d task]
  obtain s ys where t: "trace (download_task w d task) = events s @ ys"
    and y: "list_all (\<lambda>x. \<not> is_attempt x \<and> \<not> is_sleep x) ys"
    and s: "s = ?s0 \<or> s = snd (run_attempts w task [0 ..< nat (max_retries d)] ?s0)"
    by blast
  from s p0 p1 have "paced lo hi (events s)" by auto
  moreover have "list_all (\<lambda>x. \<not> is_attempt x) ys"
    using y by (induction ys) simp_all
  ultimately show ?thesis
    unfolding t by (rule paced_append)
qed

lemma download_task_unpaced:
  assumes "delay_range d = Some (lo, hi)" and "hi \<le> 0"
  shows "list_all (\<lambda>x. is_sleep x \<longrightarrow> after_pacing x) (trace (download_task w d task))"
proof -
  let ?s0 = "\<lparr> engine = d, errors = [], events = [Acquire, Mkdir (save_path task)] \<rparr>"
  have p0: "list_all (\<lambda>x. is_sleep x \<longrightarrow> after_pacing x) (events ?s0)" by simp
  have c0: "delay_range (engine ?s0) = Some (lo, hi)" using assms(1) by simp
  have p1: "list_all (\<lambda>x. is_sleep x \<longrightarrow> after_pacing x)
      (events (snd (run_attempts w task [0 ..< nat (max_retries d)] ?s0)))"
    by (rule run_attempts_unpaced [OF p0 c0 assms(2)])
  from download_task_trace [of w d task]
  obtain s ys where t: "trace (download_task w d task) = events s @ ys"
    and y: "list_all (\<lambda>x. \<not> is_attempt x \<and> \<not> is_sleep x) ys"
    and s: "s = ?s0 \<or> s = snd (run_attempts w task [0 ..< nat (max_retries d)] ?s0)"
    by blast
  from s p0 p1 have "list_all (\<lambda>x. is_sleep x \<longrightarrow> after_pacing x) (events s)" by auto
  moreover have "list_all (\<lambda>x. is_sleep x \<longrightarrow> after_pacing x) ys"
    using y by (induction ys) simp_all
  ultimately show ?thesis
    unfolding t by simp
qed

lemma pacing_no_attempt: "filter is_attempt (pacing dr) = []"
  by (auto simp: pacing_def random_delay_def split: option.splits)

lemma attempt_body_count:
  "filter is_attempt (events (snd (attempt_body w task a s))) =
     filter is_attempt (events s) @ [Attempt a]"
proof -
  from attempt_body_events [of w task a s]
  obtain ys where y: "events (snd (attempt_body w task a s)) =
      events s @ Attempt a # pacing (delay_range (engine s)) @ ys" "list_all after_pacing ys"
    by blast
  have "filter is_attempt ys = []"
    using y(2) by (induction ys) (simp_all add: after_pacing_not_attempt)
  then show ?thesis
    unfolding y(1) by (simp add: pacing_no_attempt)
qed

lemma run_attempts_count_mono:
  "length (filter is_attempt (events s))
     \<le> length (filter is_attempt (events (snd (run_attempts w task as s))))"
proof (induction as arbitrary: s)
  case Nil
  then show ?case by simp
next
  case (Cons a as)
  obtain f s1 where b: "attempt_body w task a s = (f, s1)"
    by (cases "attempt_body w task a s")
  have c: "length (filter is_attempt (events s1)) = Suc (length (filter is_attempt (events s)))"
    using attempt_body_count [of w task a s] b by simp
  show ?case
  proof (cases f)
    case Continue
    with b c Cons.IH [of s1] show ?thesis by simp
  next
    case Break
    with b c show ?thesis by simp
  next
    case (Return x)
    with b c show ?thesis by simp
  next
    case (Raise x)
    with b c show ?thesis by simp
  qed
qed

lemma run_attempts_config:
  "total_failed (engine (snd (run_attempts w task as s))) = total_failed (engine s)"
proof (induction as arbitrary: s)
  case Nil
  then show ?case by simp
next
  case (Cons a as)
  obtain f s1 where b: "attempt_body w task a s = (f, s1)"
    by (cases "attempt_body w task a s")
  have c: "total_failed (engine s1) = total_failed (engine s)"
    using attempt_body_config [of w task a s] b by simp
  show ?case
  proof (cases f)
    case Continue
    with b c Cons.IH [of s1] show ?thesis by simp
  next
    case Break
    with b c show ?thesis by simp
  next
    case (Return x)
    with b c show ?thesis by simp
  next
    case (Raise x)
    with b c show ?thesis by simp
  qed
qed

lemma download_task_attempts:
  assumes "mkdir w = None"
  shows "filter is_attempt (trace (download_task w d task)) =
     filter is_attempt (events (snd (run_attempts w task [0 ..< nat (max_retries d)]
        \<lparr> engine = d, errors = [], events = [Acquire, Mkdir (save_path task)] \<rparr>)))"
proof -
  let ?s0 = "\<lparr> engine = d, errors = [], events = [Acquire, Mkdir (save_path task)] \<rparr>"
  obtain r s where l: "run_attempts w task [0 ..< nat (max_retries d)] ?s0 = (r, s)"
    by (cases "run_attempts w task [0 ..< nat (max_retries d)] ?s0")
  show ?thesis
    using assms l
    by (cases "on_error task (TaskDownloadError (url task) (errors s))")
       (auto simp: download_task_def Let_def split: sum.splits option.splits)
qed

lemma try_block_raise_class:
  assumes "undisturbed w" and "try_block w task a s = (Inl e, s')" and "\<not> is_Exception e"
  shows "try_exception w (engine s) task a = Some e"
  using assms
  by (auto simp: try_block_def try_exception_def undisturbed_def Let_def sleep_in_eq
           split: option.splits sum.splits if_splits prod.splits)

lemma attempt_body_raise_class:
  assumes "undisturbed w" and "attempt_body w task a s = (Raise e, s')"
  shows "\<not> is_Exception e"
proof -
  let ?s0 = "s\<lparr>events := events s @ [Attempt a]\<rparr>"
  obtain r s1 where t: "try_block w task a ?s0 = (r, s1)"
    by (cases "try_block w task a ?s0")
  have q: "backoff_sleep (io w a) = None"
    using assms(1) by (simp add: undisturbed_def)
  show ?thesis
  proof (cases r)
    case (Inl x)
    show ?thesis
    proof (cases "is_Exception x")
      case True
      then have "attempt_body w task a s = except_handler None a x s1"
        using t Inl q by (simp add: attempt_body_def)
      with assms(2) show ?thesis
        by (auto simp: except_handler_def Let_def sleep_in_eq split: if_splits)
    next
      case False
      then have "attempt_body w task a s = (Raise x, s1)"
        using t Inl by (simp add: attempt_body_def)
      with assms(2) False show ?thesis by simp
    qed
  next
    case (Inr f)
    then have "attempt_body w task a s = (f, s1)"
      using t by (simp add: attempt_body_def)
    with assms(2) have "try_block w task a ?s0 = (Inr (Raise e), s1)"
      using t Inr by simp
    then show ?thesis
      using assms(1)
      by (auto simp: try_block_def undisturbed_def Let_def sleep_in_eq
               split: option.splits sum.splits if_splits prod.splits)
  qed
qed

lemma run_attempts_raise_class:
  assumes "undisturbed w" and "run_attempts w task as s = (Inl e, s')"
  shows "\<not> is_Exception e"
  using assms(2)
proof (induction as arbitrary: s)
  case Nil
  then show ?case by simp
next
  case (Cons a as)
  obtain f s1 where b: "attempt_body w task a s = (f, s1)"
    by (cases "attempt_body w task a s")
  show ?case
  proof (cases f)
    case Continue
    with b Cons show ?thesis by simp
  next
    case Break
    with b Cons.prems show ?thesis by simp
  next
    case (Return x)
    with b Cons.prems show ?thesis by simp
  next
    case (Raise x)
    with b Cons.prems have "attempt_body w task a s = (Raise e, s1)" by simp
    from attempt_body_raise_class [OF assms(1) this] show ?thesis .
  qed
qed

lemma try_block_try_exception:
  assumes "try_exception w (engine s) task a = Some e"
    and "pacing_sleep (io w a) = None"
  shows "\<exists>s'. try_block w task a s = (Inl e, s') \<and> errors s' = errors s
     \<and> max_retries (engine s') = max_retries (engine s)
     \<and> total_failed (engine s') = total_failed (engine s)
     \<and> filter is_attempt (events s') = filter is_attempt (events s)
     \<and> filter is_on_error (events s') = filter is_on_error (events s)"
  using assms
  by (auto simp: try_block_def try_exception_def Let_def sleep_in_eq
           split: option.splits sum.splits if_splits prod.splits)

lemma attempt_body_try_exception:
  assumes "try_exception w (engine s) task a = Some e"
    and "pacing_sleep (io w a) = None"
  shows "\<exists>s'. attempt_body w task a s =
        (if is_Exception e then except_handler (backoff_sleep (io w a)) a e s' else (Raise e, s'))
     \<and> errors s' = errors s
     \<and> max_retries (engine s') = max_retries (engine s)
     \<and> total_failed (engine s') = total_failed (engine s)
     \<and> filter is_attempt (events s') = filter is_attempt (events s) @ [Attempt a]
     \<and> filter is_on_error (events s') = filter is_on_error (events s)"
proof -
  let ?s0 = "s\<lparr>events := events s @ [Attempt a]\<rparr>"
  from assms(1) have "try_exception w (engine ?s0) task a = Some e"
    by simp
  from try_block_try_exception [OF this assms(2)]
  obtain s' where t: "try_block w task a ?s0 = (Inl e, s')"
    and p: "errors s' = errors ?s0" "max_retries (engine s') = max_retries (engine ?s0)"
      "total_failed (engine s') = total_failed (engine ?s0)"
      "filter is_attempt (events s') = filter is_attempt (events ?s0)"
      "filter is_on_error (events s') = filter is_on_error (events ?s0)"
    by blast
  from t have "attempt_body w task a s =
      (if is_Exception e then except_handler (backoff_sleep (io w a)) a e s' else (Raise e, s'))"
    by (simp add: attempt_body_def)
  with p show ?thesis
    by (intro exI [of _ s']) simp
qed

lemma after_pacing_not_semaphore: "after_pacing x \<Longrightarrow> x \<noteq> Acquire \<and> x \<noteq> Release"
  by (cases x) simp_all

lemma pacing_not_semaphore: "x \<in> set (pacing dr) \<Longrightarrow> x \<noteq> Acquire \<and> x \<noteq> Release"
  by (auto simp: pacing_def random_delay_def split: option.splits if_splits)

lemma run_attempts_events:
  "\<exists>zs. events (snd (run_attempts w task as s)) = events s @ zs
     \<and> list_all (\<lambda>x. x \<noteq> Acquire \<and> x \<noteq> Release) zs"
proof (induction as arbitrary: s)
  case Nil
  then show ?case by simp
next
  case (Cons a as)
  obtain f s1 where b: "attempt_body w task a s = (f, s1)"
    by (cases "attempt_body w task a s")
  from attempt_body_events [of w task a s] b
  obtain ys where y: "events s1 = events s @ Attempt a # pacing (delay_range (engine s)) @ ys"
    "list_all after_pacing ys"
    by auto
  let ?zs = "Attempt a # pacing (delay_range (engine s)) @ ys"
  have z: "list_all (\<lambda>x. x \<noteq> Acquire \<and> x \<noteq> Release) ?zs"
    using y(2) by (auto simp: list_all_iff dest: after_pacing_not_semaphore pacing_not_semaphore)
  have e1: "events s1 = events s @ ?zs"
    using y(1) by simp
  show ?case
  proof (cases f)
    case Continue
    from Cons.IH [of s1]
    obtain zs where r: "events (snd (run_attempts w task as s1)) = events s1 @ zs"
      "list_all (\<lambda>x. x \<noteq> Acquire \<and> x \<noteq> Release) zs"
      by blast
    have "events (snd (run_attempts w task (a # as) s)) = events s @ (?zs @ zs)"
      using Continue b r(1) e1 by simp
    moreover have "list_all (\<lambda>x. x \<noteq> Acquire \<and> x \<noteq> Release) (?zs @ zs)"
      using z r(2) by simp
    ultimately show ?thesis by blast
  next
    case Break
    then have "events (snd (run_attempts w task (a # as) s)) = events s @ ?zs"
      using b e1 by simp
    with z show ?thesis by blast
  next
    case (Return x)
    then have "events (snd (run_attempts w task (a # as) s)) = events s @ ?zs"
      using b e1 by simp
    with z show ?thesis by blast
  next
    case (Raise x)
    then have "events (snd (run_attempts w task (a # as) s)) = events s @ ?zs"
      using b e1 by simp
    with z show ?thesis by blast
  qed
qed

lemma try_block_hooks:
  assumes "try_block w task a s = (r, s')" and "on_success task a = None"
  shows "filter is_hook (events s') =
     filter is_hook (events s) @ (if r = Inr (Return True) then [On_success] else [])"
  using assms
  by (auto simp: try_block_def Let_def sleep_in_eq
           split: option.splits sum.splits prod.splits if_splits)

lemma except_handler_hooks:
  assumes "except_handler nap a e s = (f, s')"
  shows "filter is_hook (events s') = filter is_hook (events s) \<and> f \<noteq> Return True"
  using assms
  by (auto simp: except_handler_def Let_def sleep_in_eq split: option.splits if_splits)

lemma attempt_body_hooks:
  assumes "attempt_body w task a s = (f, s')" and "on_success task a = None"
  shows "filter is_hook (events s') =
     filter is_hook (events s) @ (if f = Return True then [On_success] else [])"
proof -
  let ?s0 = "s\<lparr>events := events s @ [Attempt a]\<rparr>"
  obtain r s1 where t: "try_block w task a ?s0 = (r, s1)"
    by (cases "try_block w task a ?s0")
  from try_block_hooks [OF t assms(2)]
  have h: "filter is_hook (events s1) =
      filter is_hook (events s) @ (if r = Inr (Return True) then [On_success] else [])"
    by simp
  show ?thesis
  proof (cases r)
    case (Inl e)
    show ?thesis
    proof (cases "is_Exception e")
      case True
      then have x: "except_handler (backoff_sleep (io w a)) a e s1 = (f, s')"
        using assms(1) t Inl by (simp add: attempt_body_def)
      from except_handler_hooks [OF x] h Inl show ?thesis
        by simp
    next
      case False
      then have "f = Raise e" "s' = s1"
        using assms(1) t Inl by (simp_all add: attempt_body_def)
      with h Inl show ?thesis
        by simp
    qed
  next
    case (Inr g)
    then have "f = g" "s' = s1"
      using assms(1) t by (simp_all add: attempt_body_def)
    with h Inr show ?thesis
      by simp
  qed
qed

lemma run_attempts_hooks:
  assumes "\<forall>a. on_success task a = None" and "run_attempts w task as s = (r, s')"
  shows "filter is_hook (events s') =
     filter is_hook (events s) @ (if r = Inr (Some True) then [On_success] else [])"
  using assms(2)
proof (induction as arbitrary: s)
  case Nil
  then show ?case by auto
next
  case (Cons a as)
  obtain f s1 where b: "attempt_body w task a s = (f, s1)"
    by (cases "attempt_body w task a s")
  from assms(1) have "on_success task a = None" by simp
  from attempt_body_hooks [OF b this]
  have h: "filter is_hook (events s1) =
      filter is_hook (events s) @ (if f = Return True then [On_success] else [])" .
  show ?case
  proof (cases f)
    case Continue
    with b Cons.prems have "run_attempts w task as s1 = (r, s')" by simp
    from Cons.IH [OF this] h Continue show ?thesis by simp
  next
    case Break
    with b h Cons.prems show ?thesis by auto
  next
    case (Return x)
    with b attempt_body_return [of w task a s x s1] have "f = Return True" by simp
    with b h Cons.prems show ?thesis by auto
  next
    case (Raise x)
    with b h Cons.prems show ?thesis by auto
  qed
qed

lemma first_attempt_succeeds_counters:
  "first_attempt_succeeds w (d\<lparr>total_downloaded := x\<rparr>) task = first_attempt_succeeds w d task"
  by (simp add: first_attempt_succeeds_def build_headers_def)

lemma download_task_first_success:
  assumes "first_attempt_succeeds w d task"
  shows "result (download_task w d task) = Inr True
     \<and> engine_after (download_task w d task) = d\<lparr>total_downloaded := total_downloaded d + 1\<rparr>"
proof -
  let ?s0 = "\<lparr> engine = d, errors = [], events = [Acquire, Mkdir (save_path task)] \<rparr>"
  let ?n = "nat (max_retries d)"
  from assms obtain hs where h: "build_headers (urlparse w) d task = Inr hs"
    by (auto simp: first_attempt_succeeds_def split: sum.splits)
  have up: "[0 ..< ?n] = 0 # [1 ..< ?n]"
    using assms by (simp add: first_attempt_succeeds_def upt_conv_Cons)
  have "\<exists>s'. attempt_body w task 0 ?s0 = (Return True, s')
      \<and> engine s' = d\<lparr>total_downloaded := total_downloaded d + 1\<rparr>"
    using assms h
    by (auto simp: first_attempt_succeeds_def attempt_body_def try_block_def Let_def sleep_in_eq
             split: option.splits prod.splits)
  then obtain s' where b: "attempt_body w task 0 ?s0 = (Return True, s')"
    and e: "engine s' = d\<lparr>total_downloaded := total_downloaded d + 1\<rparr>"
    by blast
  have "run_attempts w task [0 ..< ?n] ?s0 = (Inr (Some True), s')"
    using up b by simp
  then show ?thesis
    using assms e by (simp add: download_task_def first_attempt_succeeds_def)
qed

lemma gather_all_succeed:
  assumes "\<forall>i < length tasks. first_attempt_succeeds (W (k + i)) d (tasks ! i)"
  shows "gather W k d tasks =
     Inr (replicate (length tasks) (Inr True),
          d\<lparr>total_downloaded := total_downloaded d + int (length tasks)\<rparr>)"
  using assms
proof (induction tasks arbitrary: k d)
  case Nil
  then show ?case by simp
next
  case (Cons task tasks)
  from Cons.prems have f: "first_attempt_succeeds (W k) d task"
    by force
  let ?d1 = "d\<lparr>total_downloaded := total_downloaded d + 1\<rparr>"
  from download_task_first_success [OF f]
  have r: "result (download_task (W k) d task) = Inr True"
    and e: "engine_after (download_task (W k) d task) = ?d1"
    by simp_all
  have "\<forall>i < length tasks. first_attempt_succeeds (W (Suc k + i)) ?d1 (tasks ! i)"
  proof (intro allI impI)
    fix i
    assume "i < length tasks"
    then have "first_attempt_succeeds (W (k + Suc i)) d ((task # tasks) ! Suc i)"
      using Cons.prems by (metis Suc_less_eq length_Cons)
    then show "first_attempt_succeeds (W (Suc k + i)) ?d1 (tasks ! i)"
      by (simp add: first_attempt_succeeds_counters)
  qed
  from Cons.IH [OF this]
  have g: "gather W (Suc k) ?d1 tasks =
      Inr (replicate (length tasks) (Inr True),
           ?d1\<lparr>total_downloaded := total_downloaded ?d1 + int (length tasks)\<rparr>)" .
  show ?case
    using r e g by (simp add: Let_def)
qed

lemma attempt_body_other_status:
  assumes "build_headers (urlparse w) (engine s) task = Inr hs"
    and "pacing_sleep (io w a) = None"
    and "request (io w a) = Inr st" and "st \<noteq> 200" and "st \<noteq> 429" and "st \<noteq> 403"
  shows "\<exists>s'. attempt_body w task a s = (Continue, s') \<and> engine s' = engine s
     \<and> errors s' = errors s
     \<and> filter is_attempt (events s') = filter is_attempt (events s) @ [Attempt a]
     \<and> filter is_hook (events s') = filter is_hook (events s)"
  using assms
  by (auto simp: attempt_body_def try_block_def Let_def sleep_in_eq
           split: option.splits prod.splits)

lemma run_attempts_other_status:
  assumes "build_headers (urlparse w) (engine s) task = Inr hs"
    and "\<forall>a \<in> set as. pacing_sleep (io w a) = None
           \<and> request (io w a) = Inr (st a) \<and> st a \<noteq> 200 \<and> st a \<noteq> 429 \<and> st a \<noteq> 403"
  shows "\<exists>s'. run_attempts w task as s = (Inr None, s') \<and> engine s' = engine s
     \<and> errors s' = errors s
     \<and> filter is_attempt (events s') = filter is_attempt (events s) @ map Attempt as
     \<and> filter is_hook (events s') = filter is_hook (events s)"
  using assms
proof (induction as arbitrary: s)
  case Nil
  then show ?case by simp
next
  case (Cons a as)
  from Cons.prems(2) have q: "pacing_sleep (io w a) = None"
    and r: "request (io w a) = Inr (st a)"
    and o: "st a \<noteq> 200" "st a \<noteq> 429" "st a \<noteq> 403"
    by simp_all
  from attempt_body_other_status [OF Cons.prems(1) q r o]
  obtain s1 where b: "attempt_body w task a s = (Continue, s1)"
    and p: "engine s1 = engine s" "errors s1 = errors s"
      "filter is_attempt (events s1) = filter is_attempt (events s) @ [Attempt a]"
      "filter is_hook (events s1) = filter is_hook (events s)"
    by blast
  have h1: "build_headers (urlparse w) (engine s1) task = Inr hs"
    using Cons.prems(1) p(1) by simp
  have h2: "\<forall>a \<in> set as. pacing_sleep (io w a) = None
      \<and> request (io w a) = Inr (st a) \<and> st a \<noteq> 200 \<and> st a \<noteq> 429 \<and> st a \<noteq> 403"
    using Cons.prems(2) by simp
  from Cons.IH [OF h1 h2]
  obtain s' where l: "run_attempts w task as s1 = (Inr None, s')"
    and q: "engine s' = engine s1" "errors s' = errors s1"
      "filter is_attempt (events s') = filter is_attempt (events s1) @ map Attempt as"
      "filter is_hook (events s') = filter is_hook (events s1)"
    by blast
  have "run_attempts w task (a # as) s = (Inr None, s')"
    using b l by simp
  then show ?case
    using p q by simp
qed

section \<open>Properties\<close>

subsection \<open>The request timeout\<close>

text \<open>
  Claim C10. For every engine and every integer \<open>t\<close>, \<^verbatim>\<open>set_timeout(t)\<close> raises
  \<^verbatim>\<open>AttributeError\<close>, since it assigns to the property \<^verbatim>\<open>timeout\<close>, which
  has no setter, and it leaves the engine, and so its timeout, as it was.
\<close>

theorem set_timeout_raises:
  "fst (set_timeout d t) = Inl AttributeError \<and> snd (set_timeout d t) = d
     \<and> timeout (snd (set_timeout d t)) = timeout d"
  by (simp add: set_timeout_def timeout_fset_def)

subsection \<open>Request headers\<close>

text \<open>
  Claim C7, as stated: for every task \<^verbatim>\<open>_build_headers\<close> returns, and
  \<^verbatim>\<open>Origin\<close> is made of the scheme and the host of the referer. For the referer
  \<^verbatim>\<open>http://[::1/x\<close> parsing raises \<^verbatim>\<open>ValueError\<close> and so does
  \<^verbatim>\<open>_build_headers\<close>; for \<^verbatim>\<open>https://user@example.com:8080/x\<close> the
  origin is \<^verbatim>\<open>https://user@example.com:8080\<close>, the whole netloc and not the host.
\<close>

theorem build_headers_counterexample:
  "referer task_bad_referer = ''http://[::1/x''
   \<and> (case build_headers py_urlparse example_engine task_bad_referer of
         Inl e \<Rightarrow> e = ValueError ''Invalid IPv6 URL''
       | Inr hs \<Rightarrow> False)
   \<and> referer task_userinfo_referer = ''https://user@example.com:8080/x''
   \<and> (case build_headers py_urlparse example_engine task_userinfo_referer of
         Inl e \<Rightarrow> False
       | Inr hs \<Rightarrow> hs ''Origin'' = Some ''https://user@example.com:8080'')"
  by code_simp

text \<open>
  Claim C7, amended. With an empty referer \<^verbatim>\<open>_build_headers\<close> returns a dictionary
  that maps every key to the task's header of that name, or else to the engine's default
  header. With a referer that is not empty and that \<^verbatim>\<open>urlparse\<close> parses, it
  returns that dictionary with \<^verbatim>\<open>Referer\<close> mapped to the referer and
  \<^verbatim>\<open>Origin\<close> to the scheme, then \<^verbatim>\<open>://\<close>, then the netloc (user
  information and port included). With a referer on which \<^verbatim>\<open>urlparse\<close> raises,
  it raises that exception.
\<close>

theorem build_headers_merge:
  "(referer task = [] \<longrightarrow>
      (\<exists>hs. build_headers parse d task = Inr hs \<and>
         (\<forall>k. hs k = (case headers task k of Some v \<Rightarrow> Some v | None \<Rightarrow> default_headers d k))))
   \<and> (referer task \<noteq> [] \<and> parse (referer task) = Inr (scheme, netloc) \<longrightarrow>
      (\<exists>hs. build_headers parse d task = Inr hs \<and>
         hs ''Referer'' = Some (referer task) \<and>
         hs ''Origin'' = Some (scheme @ ''://'' @ netloc) \<and>
         (\<forall>k. k \<noteq> ''Referer'' \<and> k \<noteq> ''Origin'' \<longrightarrow>
            hs k = (case headers task k of Some v \<Rightarrow> Some v | None \<Rightarrow> default_headers d k))))
   \<and> (referer task \<noteq> [] \<and> parse (referer task) = Inl e \<longrightarrow>
      build_headers parse d task = Inl e)"
proof (intro conjI impI)
  assume "referer task = []"
  then show "\<exists>hs. build_headers parse d task = Inr hs \<and>
      (\<forall>k. hs k = (case headers task k of Some v \<Rightarrow> Some v | None \<Rightarrow> default_headers d k))"
    by (simp add: build_headers_def Let_def map_add_def)
next
  assume a: "referer task \<noteq> [] \<and> parse (referer task) = Inr (scheme, netloc)"
  then have b: "build_headers parse d task =
      Inr ((default_headers d ++ headers task)
             (''Referer'' \<mapsto> referer task, ''Origin'' \<mapsto> scheme @ ''://'' @ netloc))"
    by (simp add: build_headers_def Let_def)
  show "\<exists>hs. build_headers parse d task = Inr hs \<and>
      hs ''Referer'' = Some (referer task) \<and>
      hs ''Origin'' = Some (scheme @ ''://'' @ netloc) \<and>
      (\<forall>k. k \<noteq> ''Referer'' \<and> k \<noteq> ''Origin'' \<longrightarrow>
         hs k = (case headers task k of Some v \<Rightarrow> Some v | None \<Rightarrow> default_headers d k))"
    unfolding b by (simp add: map_add_def)
next
  assume "referer task \<noteq> [] \<and> parse (referer task) = Inl e"
  then show "build_headers parse d task = Inl e"
    by (simp add: build_headers_def Let_def)
qed

text \<open>
  The scenario of the specification (the referer \<^verbatim>\<open>https://example.com/x\<close> gives
  the origin \<^verbatim>\<open>https://example.com\<close>, and the task's own header is kept), a referer
  with a user and a port, and a referer that cannot be parsed.
\<close>

theorem build_headers_merge_witness:
  "(\<exists>hs. build_headers py_urlparse example_engine example_task = Inr hs \<and>
      hs ''Accept'' = Some ''image/*'' \<and>
      hs ''Referer'' = Some ''https://example.com/x'' \<and>
      hs ''Origin'' = Some ''https://example.com'')
   \<and> (\<exists>hs. build_headers py_urlparse example_engine task_userinfo_referer = Inr hs \<and>
      hs ''Origin'' = Some ''https://user@example.com:8080'')
   \<and> build_headers py_urlparse example_engine task_bad_referer
        = Inl (ValueError ''Invalid IPv6 URL'')"
proof -
  have p1: "py_urlparse ''https://example.com/x'' = Inr (''https'', ''example.com'')"
    by code_simp
  have p2: "py_urlparse ''https://user@example.com:8080/x'' =
      Inr (''https'', ''user@example.com:8080'')"
    by code_simp
  have p3: "py_urlparse ''http://[::1/x'' = Inl (ValueError ''Invalid IPv6 URL'')"
    by code_simp
  have r1: "referer example_task = ''https://example.com/x''"
    by (simp add: example_task_def)
  have r2: "referer task_userinfo_referer = ''https://user@example.com:8080/x''"
    by (simp add: task_userinfo_referer_def)
  have r3: "referer task_bad_referer = ''http://[::1/x''"
    by (simp add: task_bad_referer_def)
  have h: "headers example_task ''Accept'' = Some ''image/*''"
    by (simp add: example_task_def)
  have a1: "referer example_task \<noteq> [] \<and>
      py_urlparse (referer example_task) = Inr (''https'', ''example.com'')"
    using p1 r1 by simp
  have a2: "referer task_userinfo_referer \<noteq> [] \<and>
      py_urlparse (referer task_userinfo_referer) = Inr (''https'', ''user@example.com:8080'')"
    using p2 r2 by simp
  have a3: "referer task_bad_referer \<noteq> [] \<and>
      py_urlparse (referer task_bad_referer) = Inl (ValueError ''Invalid IPv6 URL'')"
    using p3 r3 by simp
  from build_headers_merge
    [where task = example_task and parse = py_urlparse and scheme = "''https''"
       and netloc = "''example.com''" and d = example_engine] a1
  obtain hs where b: "build_headers py_urlparse example_engine example_task = Inr hs"
    and o: "hs ''Referer'' = Some (referer example_task)"
      "hs ''Origin'' = Some (''https'' @ ''://'' @ ''example.com'')"
    and k: "\<forall>k. k \<noteq> ''Referer'' \<and> k \<noteq> ''Origin'' \<longrightarrow>
         hs k = (case headers example_task k of
                   Some v \<Rightarrow> Some v
                 | None \<Rightarrow> default_headers example_engine k)"
    by blast
  from k have "hs ''Accept'' =
      (case headers example_task ''Accept'' of
         Some v \<Rightarrow> Some v
       | None \<Rightarrow> default_headers example_engine ''Accept'')"
    by simp
  with h have acc: "hs ''Accept'' = Some ''image/*''"
    by simp
  from o r1 have oo: "hs ''Referer'' = Some ''https://example.com/x''"
    "hs ''Origin'' = Some ''https://example.com''"
    by simp_all
  have first: "\<exists>hs. build_headers py_urlparse example_engine example_task = Inr hs \<and>
      hs ''Accept'' = Some ''image/*'' \<and>
      hs ''Referer'' = Some ''https://example.com/x'' \<and>
      hs ''Origin'' = Some ''https://example.com''"
    using b acc oo by blast
  from build_headers_merge
    [where task = task_userinfo_referer and parse = py_urlparse and scheme = "''https''"
       and netloc = "''user@example.com:8080''" and d = example_engine] a2
  obtain hs2 where b2: "build_headers py_urlparse example_engine task_userinfo_referer = Inr hs2"
    and o2: "hs2 ''Origin'' = Some (''https'' @ ''://'' @ ''user@example.com:8080'')"
    by blast
  from o2 have "hs2 ''Origin'' = Some ''https://user@example.com:8080''"
    by simp
  with b2 have second: "\<exists>hs. build_headers py_urlparse example_engine task_userinfo_referer = Inr hs \<and>
      hs ''Origin'' = Some ''https://user@example.com:8080''"
    by blast
  from build_headers_merge
    [where task = task_bad_referer and parse = py_urlparse
       and e = "ValueError ''Invalid IPv6 URL''" and d = example_engine] a3
  have third: "build_headers py_urlparse example_engine task_bad_referer
      = Inl (ValueError ''Invalid IPv6 URL'')"
    by blast
  from first second third show ?thesis
    by blast
qed

subsection \<open>Counting finished tasks\<close>

text \<open>
  A batch in which every task succeeds at its first attempt returns its size and no
  failure, and adds twice its size to the counter of downloads: once task by task in
  \<^verbatim>\<open>download_task\<close>, once more for the whole batch in
  \<^verbatim>\<open>download_tasks\<close>.
\<close>

lemma all_succeeding_batch_counts_twice:
  assumes "\<forall>i < length tasks. first_attempt_succeeds (W i) d (tasks ! i)"
  shows "download_tasks W d tasks =
     Inr ((int (length tasks), 0),
          d\<lparr>total_downloaded := total_downloaded d + 2 * int (length tasks)\<rparr>)"
proof -
  from assms have "\<forall>i < length tasks. first_attempt_succeeds (W (0 + i)) d (tasks ! i)"
    by simp
  from gather_all_succeed [OF this]
  have g: "gather W 0 d tasks =
      Inr (replicate (length tasks) (Inr True),
           d\<lparr>total_downloaded := total_downloaded d + int (length tasks)\<rparr>)" .
  have c: "count_list (replicate (length tasks) (Inr True :: exn + bool)) (Inr True) = length tasks"
    by (induction tasks) simp_all
  show ?thesis
    by (simp add: download_tasks_def g c Let_def)
qed

text \<open>
  Claim C1. The claim is that every finished task is counted once, so that a batch in
  which every task succeeds adds its size to \<^verbatim>\<open>stats['downloaded']\<close>. On a new
  engine, a batch of one task that succeeds at its first attempt returns \<open>(1, 0)\<close> and
  leaves \<^verbatim>\<open>stats['downloaded']\<close> at 2: \<^verbatim>\<open>download_task\<close> counts the task,
  and \<^verbatim>\<open>download_tasks\<close> adds the count of the batch again.
\<close>

theorem stats_double_count:
  "(case download_tasks (\<lambda>_. world_status 200) example_engine [example_task] of
      Inl e \<Rightarrow> False
    | Inr (counts, d) \<Rightarrow> counts = (1, 0) \<and> stats d ''downloaded'' = Some 2)"
  by code_simp

subsection \<open>Hooks\<close>

text \<open>
  When the directory can be made and \<^verbatim>\<open>on_success\<close> returns each time it is
  called, one hook at most fires, once: \<^verbatim>\<open>on_success\<close> alone when the task
  succeeded, \<^verbatim>\<open>on_error\<close> alone when it failed.
\<close>

lemma returning_hooks_fire_once:
  assumes "mkdir w = None" and "\<forall>a. on_success task a = None"
  shows "(result (download_task w d task) = Inr True \<longrightarrow>
            filter is_hook (trace (download_task w d task)) = [On_success])
     \<and> (result (download_task w d task) = Inr False \<longrightarrow>
            (\<exists>errs. filter is_hook (trace (download_task w d task)) =
                [On_error (TaskDownloadError (url task) errs)]))
     \<and> (\<forall>e. result (download_task w d task) = Inl e \<longrightarrow>
            filter is_hook (trace (download_task w d task)) = []
          \<or> (\<exists>errs. filter is_hook (trace (download_task w d task)) =
                [On_error (TaskDownloadError (url task) errs)]))"
proof -
  let ?s0 = "\<lparr> engine = d, errors = [], events = [Acquire, Mkdir (save_path task)] \<rparr>"
  obtain r s where l: "run_attempts w task [0 ..< nat (max_retries d)] ?s0 = (r, s)"
    by (cases "run_attempts w task [0 ..< nat (max_retries d)] ?s0")
  from run_attempts_hooks [OF assms(2) l]
  have h: "filter is_hook (events s) = (if r = Inr (Some True) then [On_success] else [])"
    by simp
  show ?thesis
  proof (cases r)
    case (Inl e)
    with h assms(1) l show ?thesis
      by (simp add: download_task_def)
  next
    case (Inr ob)
    show ?thesis
    proof (cases ob)
      case (Some b)
      then have "b" using l Inr run_attempts_return by blast
      with Some h assms(1) l Inr show ?thesis
        by (simp add: download_task_def)
    next
      case None
      with h assms(1) l Inr show ?thesis
        by (cases "on_error task (TaskDownloadError (url task) (errors s))")
           (auto simp: download_task_def Let_def)
    qed
  qed
qed

text \<open>
  Claim C2. The claim is that exactly one hook fires, once, whatever the hooks do. For a
  task whose \<^verbatim>\<open>on_success\<close> raises and whose every request is answered 200, with
  three attempts allowed, \<^verbatim>\<open>on_success\<close> fires three times and then
  \<^verbatim>\<open>on_error\<close> fires: the call of the hook stands inside the \<^verbatim>\<open>try\<close>
  block, so its exception is handled as a failed attempt. The task is counted three times
  as downloaded and once as failed.
\<close>

theorem raising_hook_fires_both:
  "filter is_hook (trace (download_task (world_status 200) example_engine task_raising_hook)) =
     [On_success, On_success, On_success,
      On_error (TaskDownloadError ''https://img.example.com/001.jpg''
        [Exception ''hook failed'', Exception ''hook failed'', Exception ''hook failed''])]
   \<and> result (download_task (world_status 200) example_engine task_raising_hook) = Inr False
   \<and> total_downloaded
        (engine_after (download_task (world_status 200) example_engine task_raising_hook)) = 3
   \<and> total_failed
        (engine_after (download_task (world_status 200) example_engine task_raising_hook)) = 1"
  by code_simp

subsection \<open>Attempts that raise\<close>

text \<open>
  Claim C3, as stated: when every attempt raises a transient exception,
  \<^verbatim>\<open>download_task\<close> returns \<^verbatim>\<open>False\<close>. With three attempts that time out
  and an \<^verbatim>\<open>on_error\<close> hook that raises, three attempts are made and the
  exception of the hook leaves \<^verbatim>\<open>download_task\<close>: the hook is called outside
  the \<^verbatim>\<open>try\<close> block.
\<close>

theorem returns_false_counterexample:
  "attempt_exception world_timeout example_engine task_raising_on_error 0 = Some TimeoutError
   \<and> attempt_exception world_timeout example_engine task_raising_on_error 1 = Some TimeoutError
   \<and> attempt_exception world_timeout example_engine task_raising_on_error 2 = Some TimeoutError
   \<and> max_retries example_engine = 3
   \<and> count_attempts (trace (download_task world_timeout example_engine task_raising_on_error)) = 3
   \<and> result (download_task world_timeout example_engine task_raising_on_error)
       = Inl (Exception ''on_error failed'')"
  by code_simp

text \<open>
  Claim C3, amended. Let the engine have a slot and allow 0 attempts or more, let the
  directory be made, let every attempt raise an instance \<open>e a\<close> of
  \<^verbatim>\<open>Exception\<close> before any hook is called (from the network, a timeout, the
  write, the building of the headers), and let no sleep of the loop be disturbed. Then
  \<^verbatim>\<open>download_task\<close> makes exactly \<^verbatim>\<open>max_retries\<close> attempts;
  \<^verbatim>\<open>on_error\<close> is the only hook called, once, with an error whose list holds the
  exceptions of all attempts in order, of length \<^verbatim>\<open>max_retries\<close>, and whose
  \<^verbatim>\<open>attempts\<close> is \<^verbatim>\<open>max_retries\<close>; the failed counter grows by one; and
  the call returns \<^verbatim>\<open>False\<close> when \<^verbatim>\<open>on_error\<close> returns, and raises
  what \<^verbatim>\<open>on_error\<close> raises otherwise.
\<close>

theorem transient_failures_exhaust_retries:
  assumes "mkdir w = None"
    and "1 \<le> max_concurrent d"
    and "0 \<le> max_retries d"
    and "\<forall>a < nat (max_retries d).
           attempt_exception w d task a = Some (e a) \<and> is_Exception (e a)"
    and "undisturbed w"
  shows "int (count_attempts (trace (download_task w d task))) = max_retries d
     \<and> filter is_hook (trace (download_task w d task)) =
         [On_error (TaskDownloadError (url task) (map e [0 ..< nat (max_retries d)]))]
     \<and> original_errors (TaskDownloadError (url task) (map e [0 ..< nat (max_retries d)])) =
         map e [0 ..< nat (max_retries d)]
     \<and> int (length (map e [0 ..< nat (max_retries d)])) = max_retries d
     \<and> attempts (TaskDownloadError (url task) (map e [0 ..< nat (max_retries d)])) = max_retries d
     \<and> total_failed (engine_after (download_task w d task)) = total_failed d + 1
     \<and> result (download_task w d task) =
         (case on_error task (TaskDownloadError (url task) (map e [0 ..< nat (max_retries d)])) of
            None \<Rightarrow> Inr False
          | Some x \<Rightarrow> Inl x)"
proof -
  have n: "int (nat (max_retries d)) = max_retries d"
    using assms(3) by simp
  from download_task_all_raise [OF assms(1) n assms(4) assms(5)]
  obtain r where d: "download_task w d task =
       \<lparr> result = (case on_error task (TaskDownloadError (url task)
                                        (map e [0 ..< nat (max_retries d)])) of
                      Some x \<Rightarrow> Inl x | None \<Rightarrow> Inr False),
         engine_after = d\<lparr>total_failed := total_failed d + 1\<rparr>, trace = r \<rparr>"
    and p: "filter is_attempt r = map Attempt [0 ..< nat (max_retries d)]"
      "filter is_hook r = [On_error (TaskDownloadError (url task) (map e [0 ..< nat (max_retries d)]))]"
    by auto
  have c: "int (count_attempts r) = max_retries d"
    using p(1) n by (simp add: count_attempts_def)
  show ?thesis
    using d p c n by (simp add: TaskDownloadError_def split: option.splits)
qed

theorem transient_failures_exhaust_retries_witness:
  "int (count_attempts (trace (download_task world_timeout example_engine example_task))) = 3
   \<and> result (download_task world_timeout example_engine example_task) = Inr False
   \<and> filter is_hook (trace (download_task world_timeout example_engine example_task)) =
       [On_error \<lparr> err_url = ''https://img.example.com/001.jpg'',
                   original_errors = [TimeoutError, TimeoutError, TimeoutError],
                   last_error = Some TimeoutError, attempts = 3 \<rparr>]"
proof -
  have m: "max_retries example_engine = 3"
    by (simp add: example_engine_def init_def)
  have h1: "mkdir world_timeout = None"
    by (simp add: world_timeout_def)
  have h0: "1 \<le> max_concurrent example_engine"
    by (simp add: example_engine_def init_def)
  have h2: "0 \<le> max_retries example_engine"
    using m by simp
  have h3: "\<forall>a < nat (max_retries example_engine).
      attempt_exception world_timeout example_engine example_task a = Some ((\<lambda>_. TimeoutError) a)
      \<and> is_Exception ((\<lambda>_. TimeoutError) a)"
    using example_headers_ok
    by (simp add: attempt_exception_def io_exception_def world_timeout_def)
  have h5: "undisturbed world_timeout"
    by (simp add: undisturbed_def world_timeout_def)
  have l: "[0 ..< nat (max_retries example_engine)] = [0, 1, 2]"
    unfolding m by code_simp
  have u: "url example_task = ''https://img.example.com/001.jpg''"
    by (simp add: example_task_def)
  have h4: "on_error example_task (TaskDownloadError ''https://img.example.com/001.jpg''
      (map (\<lambda>_. TimeoutError) [0, 1, 2])) = None"
    by (simp add: example_task_def)
  show ?thesis
    using transient_failures_exhaust_retries [OF h1 h0 h2 h3 h5]
    unfolding l u
    by (simp add: TaskDownloadError_def m h4 [unfolded TaskDownloadError_def, simplified])
qed

text \<open>
  Claim C4, as stated: a first attempt that meets an unrecoverable condition is the only
  attempt. The engine has no such class of conditions. With a destination that cannot be
  written and three attempts allowed, the first attempt raises and three attempts are
  made.
\<close>

theorem fatal_no_retry_counterexample:
  "io_exception (io world_bad_destination 0) = Some (OSError ''[Errno 36] File name too long'')
   \<and> max_retries example_engine = 3
   \<and> count_attempts (trace (download_task world_bad_destination example_engine example_task)) = 3"
  by code_simp

text \<open>
  Claim C4, amended. Let the engine have a slot and allow one attempt at least, let the
  directory be made and no sleep of the loop be disturbed, and let the first attempt
  raise \<open>e\<close>, from the building of the headers, the request, the reading and writing,
  or \<^verbatim>\<open>on_success\<close>. When \<open>e\<close> is an instance of \<^verbatim>\<open>Exception\<close> it is
  handled like any other: with \<^verbatim>\<open>max_retries\<close> equal to 1 exactly one attempt is
  made and the task ends failed, \<^verbatim>\<open>on_error\<close> receiving that one exception; with
  \<^verbatim>\<open>max_retries\<close> above 1 a second attempt follows. When \<open>e\<close> is not an
  instance of \<^verbatim>\<open>Exception\<close> (a cancellation, \<^verbatim>\<open>KeyboardInterrupt\<close>,
  \<^verbatim>\<open>SystemExit\<close>) it is not caught: exactly one attempt is made, \<open>e\<close> leaves
  \<^verbatim>\<open>download_task\<close>, \<^verbatim>\<open>on_error\<close> is not called and no failure is
  counted.
\<close>

theorem first_exception_is_retried:
  assumes "mkdir w = None"
    and "1 \<le> max_concurrent d"
    and "1 \<le> max_retries d"
    and "try_exception w d task 0 = Some e"
    and "undisturbed w"
  shows "(is_Exception e \<and> max_retries d = 1 \<longrightarrow>
            count_attempts (trace (download_task w d task)) = 1
          \<and> filter is_on_error (trace (download_task w d task)) =
              [On_error (TaskDownloadError (url task) [e])]
          \<and> total_failed (engine_after (download_task w d task)) = total_failed d + 1)
     \<and> (is_Exception e \<and> 1 < max_retries d \<longrightarrow>
            2 \<le> count_attempts (trace (download_task w d task)))
     \<and> (\<not> is_Exception e \<longrightarrow>
            count_attempts (trace (download_task w d task)) = 1
          \<and> result (download_task w d task) = Inl e
          \<and> filter is_on_error (trace (download_task w d task)) = []
          \<and> total_failed (engine_after (download_task w d task)) = total_failed d)"
proof -
  let ?s0 = "\<lparr> engine = d, errors = [], events = [Acquire, Mkdir (save_path task)] \<rparr>"
  let ?n = "nat (max_retries d)"
  have up: "[0 ..< ?n] = 0 # [1 ..< ?n]"
    using assms(3) by (simp add: upt_conv_Cons)
  have q: "pacing_sleep (io w 0) = None" "backoff_sleep (io w 0) = None"
    using assms(5) by (simp_all add: undisturbed_def)
  have ex: "try_exception w (engine ?s0) task 0 = Some e"
    using assms(4) by simp
  from attempt_body_try_exception [OF ex q(1)]
  obtain s1 where b0: "attempt_body w task 0 ?s0 =
        (if is_Exception e then except_handler (backoff_sleep (io w 0)) 0 e s1 else (Raise e, s1))"
    and p: "errors s1 = []" "max_retries (engine s1) = max_retries d"
      "total_failed (engine s1) = total_failed d"
      "filter is_attempt (events s1) = [Attempt 0]"
      "filter is_on_error (events s1) = []"
    by auto
  have b: "attempt_body w task 0 ?s0 =
        (if is_Exception e then except_handler None 0 e s1 else (Raise e, s1))"
    using b0 q(2) by simp
  have one: "count_attempts (trace (download_task w d task)) = 1
      \<and> filter is_on_error (trace (download_task w d task)) =
          [On_error (TaskDownloadError (url task) [e])]
      \<and> total_failed (engine_after (download_task w d task)) = total_failed d + 1"
    if c: "is_Exception e" and m: "max_retries d = 1"
  proof -
    let ?s2 = "s1\<lparr>errors := errors s1 @ [e]\<rparr>"
    have h: "except_handler None 0 e s1 = (Break, ?s2)"
      using m p(2) by (simp add: except_handler_def Let_def)
    have n1: "[0 ..< ?n] = [0]"
      using m by simp
    have r: "run_attempts w task [0 ..< ?n] ?s0 = (Inr None, ?s2)"
      unfolding n1 using b c h by simp
    show ?thesis
      using assms(1) r p
      by (cases "on_error task (TaskDownloadError (url task) [e])")
         (simp_all add: download_task_def Let_def count_attempts_def)
  qed
  have more: "2 \<le> count_attempts (trace (download_task w d task))"
    if c: "is_Exception e" and m: "1 < max_retries d"
  proof -
    let ?s2 = "(s1\<lparr>errors := errors s1 @ [e]\<rparr>)\<lparr>events := events s1 @ [Sleep 2 5]\<rparr>"
    have h: "except_handler None 0 e s1 = (Continue, ?s2)"
      using m p(2) by (simp add: except_handler_def Let_def sleep_in_eq)
    have c2: "length (filter is_attempt (events ?s2)) = 1"
      using p(4) by simp
    have ne: "[1 ..< ?n] = 1 # [Suc 1 ..< ?n]"
      using m by (simp add: upt_conv_Cons)
    obtain f s3 where b3: "attempt_body w task 1 ?s2 = (f, s3)"
      by (cases "attempt_body w task 1 ?s2")
    have c3: "length (filter is_attempt (events s3)) = 2"
      using attempt_body_count [of w task 1 ?s2] b3 c2 by simp
    have "2 \<le> length (filter is_attempt (events (snd (run_attempts w task [1 ..< ?n] ?s2))))"
    proof (cases f)
      case Continue
      with b3 c3 ne run_attempts_count_mono [of s3 w task "[Suc 1 ..< ?n]"] show ?thesis by simp
    next
      case Break
      with b3 c3 ne show ?thesis by simp
    next
      case (Return x)
      with b3 c3 ne show ?thesis by simp
    next
      case (Raise x)
      with b3 c3 ne show ?thesis by simp
    qed
    moreover have "run_attempts w task [0 ..< ?n] ?s0 = run_attempts w task [1 ..< ?n] ?s2"
      using up b c h by simp
    ultimately show ?thesis
      using download_task_attempts [OF assms(1), of d task] by (simp add: count_attempts_def)
  qed
  have escape: "count_attempts (trace (download_task w d task)) = 1
      \<and> result (download_task w d task) = Inl e
      \<and> filter is_on_error (trace (download_task w d task)) = []
      \<and> total_failed (engine_after (download_task w d task)) = total_failed d"
    if c: "\<not> is_Exception e"
  proof -
    have r: "run_attempts w task [0 ..< ?n] ?s0 = (Inl e, s1)"
      using up b c by simp
    show ?thesis
      using assms(1) r p by (simp add: download_task_def count_attempts_def)
  qed
  from one more escape show ?thesis
    by blast
qed

theorem first_exception_is_retried_witness:
  "count_attempts (trace (download_task world_bad_destination engine_single_attempt example_task)) = 1
   \<and> filter is_on_error
        (trace (download_task world_bad_destination engine_single_attempt example_task)) =
       [On_error (TaskDownloadError ''https://img.example.com/001.jpg''
          [OSError ''[Errno 36] File name too long''])]
   \<and> 2 \<le> count_attempts (trace (download_task (world_status 200) example_engine task_raising_hook))
   \<and> count_attempts (trace (download_task world_cancelled example_engine example_task)) = 1
   \<and> result (download_task world_cancelled example_engine example_task) = Inl CancelledError"
proof -
  have h1: "mkdir world_bad_destination = None" "mkdir (world_status 200) = None"
    "mkdir world_cancelled = None"
    by (simp_all add: world_bad_destination_def world_status_def world_cancelled_def)
  have u1: "undisturbed world_bad_destination" "undisturbed (world_status 200)"
    "undisturbed world_cancelled"
    by (simp_all add: undisturbed_def world_bad_destination_def world_status_def
          world_cancelled_def)
  have m1: "max_retries engine_single_attempt = 1" "max_concurrent engine_single_attempt = 3"
    by (simp_all add: engine_single_attempt_def init_def)
  have m3: "max_retries example_engine = 3" "max_concurrent example_engine = 3"
    by (simp_all add: example_engine_def init_def)
  have e1: "try_exception world_bad_destination engine_single_attempt example_task 0 =
      Some (OSError ''[Errno 36] File name too long'')"
    by code_simp
  have e2: "try_exception (world_status 200) example_engine task_raising_hook 0 =
      Some (Exception ''hook failed'')"
    by code_simp
  have e3: "try_exception world_cancelled example_engine example_task 0 = Some CancelledError"
    by code_simp
  have u: "url example_task = ''https://img.example.com/001.jpg''"
    by (simp add: example_task_def)
  have c1: "1 \<le> max_concurrent engine_single_attempt" "1 \<le> max_retries engine_single_attempt"
    using m1 by simp_all
  have c3: "1 \<le> max_concurrent example_engine" "1 \<le> max_retries example_engine"
    using m3 by simp_all
  show ?thesis
    using first_exception_is_retried [OF h1(1) c1 e1 u1(1)]
      first_exception_is_retried [OF h1(2) c3 e2 u1(2)]
      first_exception_is_retried [OF h1(3) c3 e3 u1(3)]
      m1 m3 u
    by simp
qed

subsection \<open>Statuses other than 200, 429 and 403\<close>

text \<open>
  When every request is answered with a status other than 200, 429 and 403, all the
  attempts allowed are made and none adds to the error list: \<^verbatim>\<open>on_error\<close>
  receives an error with an empty list and \<^verbatim>\<open>attempts == 0\<close>.
\<close>

lemma other_statuses_leave_no_error:
  assumes "mkdir w = None"
    and "build_headers (urlparse w) d task = Inr hs"
    and "\<forall>a < nat (max_retries d). pacing_sleep (io w a) = None
           \<and> request (io w a) = Inr (st a) \<and> st a \<noteq> 200 \<and> st a \<noteq> 429 \<and> st a \<noteq> 403"
  shows "count_attempts (trace (download_task w d task)) = nat (max_retries d)
     \<and> filter is_hook (trace (download_task w d task)) =
          [On_error (TaskDownloadError (url task) [])]
     \<and> attempts (TaskDownloadError (url task) []) = 0"
proof -
  let ?s0 = "\<lparr> engine = d, errors = [], events = [Acquire, Mkdir (save_path task)] \<rparr>"
  have h1: "build_headers (urlparse w) (engine ?s0) task = Inr hs"
    using assms(2) by simp
  have h2: "\<forall>a \<in> set [0 ..< nat (max_retries d)]. pacing_sleep (io w a) = None
      \<and> request (io w a) = Inr (st a) \<and> st a \<noteq> 200 \<and> st a \<noteq> 429 \<and> st a \<noteq> 403"
    using assms(3) by simp
  from run_attempts_other_status [OF h1 h2]
  obtain s' where l: "run_attempts w task [0 ..< nat (max_retries d)] ?s0 = (Inr None, s')"
    and q: "errors s' = []"
      "filter is_attempt (events s') = map Attempt [0 ..< nat (max_retries d)]"
      "filter is_hook (events s') = []"
    by auto
  show ?thesis
    using assms(1) l q
    by (cases "on_error task (TaskDownloadError (url task) [])")
       (simp_all add: download_task_def Let_def count_attempts_def TaskDownloadError_def)
qed

text \<open>
  Claim C5. The claim is that a status such as 404 is recorded in the task's error list
  like a transient failure. For a task whose every request is answered 404, with three
  attempts allowed, three attempts are made and the task ends failed, and the error
  handed to \<^verbatim>\<open>on_error\<close> has an empty error list and \<^verbatim>\<open>attempts == 0\<close>: the
  chain of status tests has no last branch.
\<close>

theorem status_404_not_recorded:
  "count_attempts (trace (download_task (world_status 404) example_engine example_task)) = 3
   \<and> result (download_task (world_status 404) example_engine example_task) = Inr False
   \<and> filter is_hook (trace (download_task (world_status 404) example_engine example_task)) =
       [On_error \<lparr> err_url = ''https://img.example.com/001.jpg'', original_errors = [],
                   last_error = None, attempts = 0 \<rparr>]"
  by code_simp

subsection \<open>Exceptions that leave \<^verbatim>\<open>download_task\<close>\<close>

text \<open>
  When the directory can be made, \<^verbatim>\<open>on_error\<close> returns and no sleep of the loop
  is disturbed, the only exceptions that leave \<^verbatim>\<open>download_task\<close> are those that
  are not instances of \<^verbatim>\<open>Exception\<close>; otherwise it returns \<^verbatim>\<open>True\<close> or
  \<^verbatim>\<open>False\<close>, and \<^verbatim>\<open>False\<close> only after it has called \<^verbatim>\<open>on_error\<close>
  and counted one failure.
\<close>

lemma exceptions_are_caught:
  assumes "mkdir w = None" and "\<forall>err. on_error task err = None" and "undisturbed w"
  shows "(result (download_task w d task) = Inr True
          \<or> result (download_task w d task) = Inr False
          \<or> (\<exists>e. result (download_task w d task) = Inl e \<and> \<not> is_Exception e))
     \<and> (result (download_task w d task) = Inr False \<longrightarrow>
          (\<exists>errs. On_error (TaskDownloadError (url task) errs) \<in> set (trace (download_task w d task)))
          \<and> total_failed (engine_after (download_task w d task)) = total_failed d + 1)"
proof -
  let ?s0 = "\<lparr> engine = d, errors = [], events = [Acquire, Mkdir (save_path task)] \<rparr>"
  obtain r s where l: "run_attempts w task [0 ..< nat (max_retries d)] ?s0 = (r, s)"
    by (cases "run_attempts w task [0 ..< nat (max_retries d)] ?s0")
  have f: "total_failed (engine s) = total_failed d"
    using run_attempts_config [of w task "[0 ..< nat (max_retries d)]" ?s0] l by simp
  show ?thesis
  proof (cases r)
    case (Inl e)
    then have "\<not> is_Exception e"
      using run_attempts_raise_class [OF assms(3)] l by blast
    moreover have "result (download_task w d task) = Inl e"
      using assms(1) l Inl by (simp add: download_task_def)
    ultimately show ?thesis by simp
  next
    case (Inr ob)
    show ?thesis
    proof (cases ob)
      case None
      then have "download_task w d task =
          \<lparr> result = Inr False,
            engine_after = (engine s)\<lparr>total_failed := total_failed (engine s) + 1\<rparr>,
            trace = events s @ [On_error (TaskDownloadError (url task) (errors s))] @ [Release] \<rparr>"
        using assms l Inr by (simp add: download_task_def Let_def)
      then show ?thesis
        using f by auto
    next
      case (Some b)
      then have "b" using l Inr run_attempts_return by blast
      then have "result (download_task w d task) = Inr True"
        using assms(1) l Inr Some by (simp add: download_task_def Let_def)
      then show ?thesis by simp
    qed
  qed
qed

text \<open>
  Claim C6. The claim is that no error of the file system, also while the destination is
  prepared, leaves \<^verbatim>\<open>download_task\<close>, and that failure is reported through
  \<^verbatim>\<open>False\<close> and \<^verbatim>\<open>on_error\<close>. The parent directory is made before the
  \<^verbatim>\<open>try\<close> block: when that raises, the exception leaves
  \<^verbatim>\<open>download_task\<close>, no hook is called and nothing is counted. An error of the
  write, inside the \<^verbatim>\<open>try\<close> block, is caught: the task ends failed, returns
  \<^verbatim>\<open>False\<close>, and \<^verbatim>\<open>on_error\<close> receives the three errors.
\<close>

theorem mkdir_error_escapes:
  "result (download_task world_mkdir_fails example_engine example_task)
     = Inl (OSError ''[Errno 13] Permission denied'')
   \<and> filter is_hook (trace (download_task world_mkdir_fails example_engine example_task)) = []
   \<and> stats (engine_after (download_task world_mkdir_fails example_engine example_task))
        ''total'' = Some 0
   \<and> result (download_task world_bad_destination example_engine example_task) = Inr False
   \<and> filter is_hook (trace (download_task world_bad_destination example_engine example_task)) =
       [On_error (TaskDownloadError ''https://img.example.com/001.jpg''
          [OSError ''[Errno 36] File name too long'', OSError ''[Errno 36] File name too long'',
           OSError ''[Errno 36] File name too long''])]
   \<and> stats (engine_after (download_task world_bad_destination example_engine example_task))
        ''failed'' = Some 1"
  by code_simp

subsection \<open>Pacing\<close>

text \<open>
  Claim C8. \<^verbatim>\<open>random_delay\<close> with an upper bound of 0 or less returns without
  sleeping, and a run of an engine so configured sleeps only for the ranges of the retry
  loop itself, never to pace an attempt. When the upper bound of the engine's range is
  positive, every attempt of a run, the first and the retries alike, starts with a sleep
  for that range.
\<close>

theorem pacing_before_every_attempt:
  "(max_seconds \<le> 0 \<longrightarrow> random_delay min_seconds max_seconds nap tr = (None, tr))
   \<and> (delay_range d0 = Some (lo0, hi0) \<and> hi0 \<le> 0 \<and> Sleep a b \<in> set (trace (download_task w0 d0 task0))
        \<longrightarrow> (a, b) \<in> set backoff_ranges)
   \<and> (delay_range d = Some (lo, hi) \<and> 0 < hi
        \<and> i < length (trace (download_task w d task))
        \<and> trace (download_task w d task) ! i = Attempt k
        \<longrightarrow> Suc i < length (trace (download_task w d task))
            \<and> trace (download_task w d task) ! Suc i = Sleep lo hi)"
proof (intro conjI impI)
  assume "max_seconds \<le> 0"
  then show "random_delay min_seconds max_seconds nap tr = (None, tr)"
    by (simp add: random_delay_def)
next
  assume h: "delay_range d0 = Some (lo0, hi0) \<and> hi0 \<le> 0
      \<and> Sleep a b \<in> set (trace (download_task w0 d0 task0))"
  then have "list_all (\<lambda>x. is_sleep x \<longrightarrow> after_pacing x) (trace (download_task w0 d0 task0))"
    using download_task_unpaced [of d0 lo0 hi0 w0 task0] by simp
  with h have "is_sleep (Sleep a b) \<longrightarrow> after_pacing (Sleep a b)"
    unfolding list_all_iff by blast
  then show "(a, b) \<in> set backoff_ranges"
    by simp
next
  assume h: "delay_range d = Some (lo, hi) \<and> 0 < hi
      \<and> i < length (trace (download_task w d task))
      \<and> trace (download_task w d task) ! i = Attempt k"
  then have p: "paced lo hi (trace (download_task w d task))"
    using download_task_paced [of d lo hi w task] by simp
  from paced_nth [OF p] h
  have r: "Suc i < length (trace (download_task w d task))
      \<and> trace (download_task w d task) ! Suc i = Sleep lo hi"
    by simp
  from r show "Suc i < length (trace (download_task w d task))" by simp
  from r show "trace (download_task w d task) ! Suc i = Sleep lo hi" by simp
qed

theorem pacing_before_every_attempt_witness:
  "random_delay 1 0 (Some CancelledError) [Acquire] = (None, [Acquire])
   \<and> Sleep 2 5 \<in> set (trace (download_task world_timeout engine_unpaced example_task))
   \<and> (2, 5) \<in> set backoff_ranges
   \<and> trace (download_task (world_status 429) example_engine example_task) ! 6 = Attempt 1
   \<and> trace (download_task (world_status 429) example_engine example_task) ! 7 = Sleep 1 3"
proof -
  have h1: "(0::real) \<le> 0" by simp
  have h2: "delay_range engine_unpaced = Some (1, 0)"
    by (simp add: engine_unpaced_def init_def)
  have h3: "Sleep 2 5 \<in> set (trace (download_task world_timeout engine_unpaced example_task))"
    by code_simp
  have h4: "delay_range example_engine = Some (1, 3)"
    by (simp add: example_engine_def init_def)
  have h5: "6 < length (trace (download_task (world_status 429) example_engine example_task))"
    by code_simp
  have h6: "trace (download_task (world_status 429) example_engine example_task) ! 6 = Attempt 1"
    by code_simp
  show ?thesis
    using pacing_before_every_attempt
      [where max_seconds = 0 and min_seconds = 1 and nap = "Some CancelledError"
         and tr = "[Acquire]"
         and ?d0.0 = engine_unpaced and ?lo0.0 = 1 and ?hi0.0 = 0 and a = 2 and b = 5
         and ?w0.0 = world_timeout and ?task0.0 = example_task
         and d = example_engine and lo = 1 and hi = 3 and i = 6
         and w = "world_status 429" and task = example_task and k = 1]
      h1 h2 h3 h4 h5 h6
    by simp
qed

subsection \<open>The semaphore\<close>

text \<open>
  A run of \<^verbatim>\<open>download_task\<close> takes the semaphore first and gives it back last,
  on every way out, and does neither in between: all attempts, delays and calls of hooks
  happen while it holds the semaphore.
\<close>

lemma download_task_holds_slot:
  "\<exists>mid. trace (download_task w d task) = Acquire # mid @ [Release]
     \<and> list_all (\<lambda>x. x \<noteq> Acquire \<and> x \<noteq> Release) mid"
proof (cases "mkdir w")
  case (Some e)
  then have "trace (download_task w d task) = Acquire # [Mkdir (save_path task)] @ [Release]"
    by (simp add: download_task_def)
  then show ?thesis
    by (intro exI [of _ "[Mkdir (save_path task)]"]) simp
next
  case None
  let ?s0 = "\<lparr> engine = d, errors = [], events = [Acquire, Mkdir (save_path task)] \<rparr>"
  obtain r s where l: "run_attempts w task [0 ..< nat (max_retries d)] ?s0 = (r, s)"
    by (cases "run_attempts w task [0 ..< nat (max_retries d)] ?s0")
  from run_attempts_events [of w task "[0 ..< nat (max_retries d)]" ?s0] l
  obtain zs where z: "events s = [Acquire, Mkdir (save_path task)] @ zs"
    "list_all (\<lambda>x. x \<noteq> Acquire \<and> x \<noteq> Release) zs"
    by auto
  show ?thesis
  proof (cases r)
    case (Inl e)
    then have "trace (download_task w d task) = Acquire # (Mkdir (save_path task) # zs) @ [Release]"
      using None l z(1) by (simp add: download_task_def)
    then show ?thesis
      using z(2) by (intro exI [of _ "Mkdir (save_path task) # zs"]) simp
  next
    case (Inr ob)
    show ?thesis
    proof (cases ob)
      case (Some b)
      then have "trace (download_task w d task) =
          Acquire # (Mkdir (save_path task) # zs) @ [Release]"
        using None l z(1) Inr by (simp add: download_task_def)
      then show ?thesis
        using z(2) by (intro exI [of _ "Mkdir (save_path task) # zs"]) simp
    next
      case n: None
      let ?err = "On_error (TaskDownloadError (url task) (errors s))"
      have "trace (download_task w d task) =
          Acquire # (Mkdir (save_path task) # zs @ [?err]) @ [Release]"
        using None n l z(1) Inr
        by (cases "on_error task (TaskDownloadError (url task) (errors s))")
           (simp_all add: download_task_def Let_def)
      then show ?thesis
        using z(2) by (intro exI [of _ "Mkdir (save_path task) # zs @ [?err]"]) simp
    qed
  qed
qed

end
